theory Spec2Isabelle
  imports Main "HOL-Library.Word" "HOL-Library.Multiset"
begin

section \<open>Values of type double\<close>

text \<open>
  The arrays of \<^verbatim>\<open>NarioJ.cpp\<close> hold \<^verbatim>\<open>double\<close>s, and the only operation the program
  applies to them is the comparison \<^verbatim>\<open>>\<close> of the inner loop of the sort. A double is
  modelled by the three fields of its IEEE-754 binary64 encoding. Two encodings that are not NaN
  compare as their sign-magnitude integers do (so \<open>+0\<close> and \<open>-0\<close> are equal although they
  are different values), and every comparison with a NaN is false.
\<close>

datatype double = Double (sign: bool) (expo: "11 word") (frac: "52 word")

definition isnan :: "double \<Rightarrow> bool" where
  "isnan d = (expo d = 2047 \<and> frac d \<noteq> 0)"

definition magnitude :: "double \<Rightarrow> nat" where
  "magnitude d = unat (expo d) * 2 ^ 52 + unat (frac d)"

definition dkey :: "double \<Rightarrow> int" where
  "dkey d = (if sign d then - int (magnitude d) else int (magnitude d))"

text \<open>\<^verbatim>\<open>a > b\<close> and \<^verbatim>\<open>a >= b\<close> on doubles.\<close>

definition dgt :: "double \<Rightarrow> double \<Rightarrow> bool" where
  "dgt a b = (\<not> isnan a \<and> \<not> isnan b \<and> dkey b < dkey a)"

definition dge :: "double \<Rightarrow> double \<Rightarrow> bool" where
  "dge a b = (\<not> isnan a \<and> \<not> isnan b \<and> dkey b \<le> dkey a)"

text \<open>A sequence without NaN: what the input loops can deliver from decimal text.\<close>

definition nonan :: "double list \<Rightarrow> bool" where
  "nonan a = list_all (\<lambda>x. \<not> isnan x) a"

section \<open>The selection sort of main (lines 64 to 77)\<close>

text \<open>
  The inner loop \<^verbatim>\<open>for (int j = i + 1; j < n; j++)\<close>, started with \<open>maxIndex = i\<close>. It
  returns the final \<open>maxIndex\<close>. Both indices stay below \<open>n = mergedArray.size()\<close>, so
  every access of the source is in range.
\<close>

function scan :: "double list \<Rightarrow> nat \<Rightarrow> nat \<Rightarrow> nat \<Rightarrow> nat" where
  "scan a n j maxIndex =
     (if j < n
      then scan a n (j + 1) (if dgt (a ! j) (a ! maxIndex) then j else maxIndex)
      else maxIndex)"
  by pat_completeness auto
termination
  by (relation "measure (\<lambda>(a, n, j, maxIndex). n - j)") auto

declare scan.simps [simp del]

text \<open>The three assignments through \<open>temp\<close> that exchange positions \<open>i\<close> and \<open>maxIndex\<close>.\<close>

definition swap :: "double list \<Rightarrow> nat \<Rightarrow> nat \<Rightarrow> double list" where
  "swap a i maxIndex =
     (let temp = a ! i;
          a1 = a[i := a ! maxIndex]
      in a1[maxIndex := temp])"

text \<open>
  The outer loop \<^verbatim>\<open>for (int i = 0; i < n - 1; i++)\<close>. The source computes \<open>n - 1\<close> on
  \<^verbatim>\<open>int\<close>, where it is \<open>-1\<close> for the empty array and the loop does not run; on natural
  numbers the same test is \<open>i + 1 < n\<close>.
\<close>

function sort_loop :: "double list \<Rightarrow> nat \<Rightarrow> nat \<Rightarrow> double list" where
  "sort_loop a n i =
     (if i + 1 < n
      then sort_loop (swap a i (scan a n (i + 1) i)) n (i + 1)
      else a)"
  by pat_completeness auto
termination
  by (relation "measure (\<lambda>(a, n, i). n - i)") auto

declare sort_loop.simps [simp del]

definition selection_sort :: "double list \<Rightarrow> double list" where
  "selection_sort mergedArray = sort_loop mergedArray (length mergedArray) 0"

subsection \<open>Invariants of the two loops\<close>

text \<open>
  \<open>is_first_max a i j k\<close>: among the positions \<open>i..j-1\<close>, position \<open>k\<close> holds a value
  that is greater than or equal to all of them and strictly greater than those before \<open>k\<close>.
  \<open>settled a i\<close>: no element is strictly greater than one of the first \<open>i\<close> elements
  that stands before it.
\<close>

definition is_first_max :: "double list \<Rightarrow> nat \<Rightarrow> nat \<Rightarrow> nat \<Rightarrow> bool" where
  "is_first_max a i j k \<longleftrightarrow>
     i \<le> k \<and> k < j \<and>
     (\<forall>q. i \<le> q \<and> q < j \<longrightarrow> dge (a ! k) (a ! q)) \<and>
     (\<forall>q. i \<le> q \<and> q < k \<longrightarrow> dgt (a ! k) (a ! q))"

definition settled :: "double list \<Rightarrow> nat \<Rightarrow> bool" where
  "settled a i \<longleftrightarrow> (\<forall>p q. p < i \<and> p < q \<and> q < length a \<longrightarrow> \<not> dgt (a ! q) (a ! p))"

subsection \<open>The algorithm in the words of the specification\<close>

text \<open>
  Position \<open>k\<close> holds a maximum of the unsorted remainder \<open>i..n-1\<close> when its element is
  greater than or equal to every element there; the first such position is selected, and the
  elements at \<open>i\<close> and at that position are exchanged, for \<open>i\<close> from \<open>0\<close> to \<open>n-2\<close>.
  There is no result (\<open>None\<close>) when the remainder has no maximum.
\<close>

definition is_max_of_rest :: "double list \<Rightarrow> nat \<Rightarrow> nat \<Rightarrow> bool" where
  "is_max_of_rest a i k = list_all (\<lambda>q. dge (a ! k) (a ! q)) [i..<length a]"

definition first_max :: "double list \<Rightarrow> nat \<Rightarrow> nat option" where
  "first_max a i = find (is_max_of_rest a i) [i..<length a]"

function spec_sort_from :: "double list \<Rightarrow> nat \<Rightarrow> double list option" where
  "spec_sort_from a i =
     (if i + 1 < length a
      then (case first_max a i of
              None \<Rightarrow> None
            | Some k \<Rightarrow> spec_sort_from (swap a i k) (i + 1))
      else Some a)"
  by pat_completeness auto
termination
  by (relation "measure (\<lambda>(a, i). length a - i)") (auto simp: swap_def)

declare spec_sort_from.simps [simp del]

definition spec_sort :: "double list \<Rightarrow> double list option" where
  "spec_sort a = spec_sort_from a 0"

text \<open>Non-increasing order, on neighbours as the specification writes it.\<close>

fun nonincreasing :: "double list \<Rightarrow> bool" where
  "nonincreasing [] = True"
| "nonincreasing [x] = True"
| "nonincreasing (x # y # zs) = (dge x y \<and> nonincreasing (y # zs))"

section \<open>Standard input and output\<close>

text \<open>
  The program talks to \<^verbatim>\<open>cin\<close> and \<^verbatim>\<open>cout\<close>. The output is the text written so far. The
  input is a state of any type \<open>'s\<close>, and the operations of the C++ library that the program
  calls on it are parameters of the model:
  \<^item> \<open>get_int\<close> is \<^verbatim>\<open>cin >> size\<close> on an \<^verbatim>\<open>int\<close>: the value read, or \<open>None\<close> when
    \<^verbatim>\<open>cin.fail()\<close> holds afterwards, and the stream after the attempt;
  \<^item> \<open>int_on_fail\<close> is what a failed extraction leaves in the variable, given the stream
    before the attempt and the variable's old content;
  \<^item> \<open>get_double\<close> and \<open>double_on_fail\<close> are the same for \<^verbatim>\<open>cin >> input\<close> on a
    \<^verbatim>\<open>double\<close>;
  \<^item> \<open>clear_ignore\<close> is \<^verbatim>\<open>cin.clear(); cin.ignore(10000, '\n')\<close>;
  \<^item> \<open>put_double\<close> is the text \<^verbatim>\<open>cout << x\<close> writes for a \<^verbatim>\<open>double\<close>.

  A value of the C++ type \<^verbatim>\<open>int\<close> is an integer here: the program compares the sizes with 0
  and 10 and counts up to them after the clamp, so no arithmetic leaves the range of the type.
\<close>

record 's iostream =
  get_int :: "'s \<Rightarrow> int option \<times> 's"
  int_on_fail :: "'s \<Rightarrow> int \<Rightarrow> int"
  get_double :: "'s \<Rightarrow> double option \<times> 's"
  double_on_fail :: "'s \<Rightarrow> double \<Rightarrow> double"
  clear_ignore :: "'s \<Rightarrow> 's"
  put_double :: "double \<Rightarrow> string"

record 's world =
  cin :: "'s"
  cout :: string

definition put :: "string \<Rightarrow> 's world \<Rightarrow> 's world" where
  "put s w = w\<lparr>cout := cout w @ s\<rparr>"

text \<open>\<^verbatim>\<open>endl\<close> writes a newline.\<close>

definition endl :: string where
  "endl = [CHR 0x0A]"

text \<open>\<^verbatim>\<open>cout << size1\<close> writes an \<^verbatim>\<open>int\<close> in decimal.\<close>

fun digits :: "nat \<Rightarrow> string" where
  "digits n =
     (if n < 10 then [''0123456789'' ! n]
      else digits (n div 10) @ [''0123456789'' ! (n mod 10)])"

declare digits.simps [simp del]

definition put_int :: "int \<Rightarrow> string" where
  "put_int v = (if v < 0 then CHR ''-'' # digits (nat (- v)) else digits (nat v))"

definition stars :: string where
  "stars = ''*******************************************************************''"

definition line :: "'s world \<Rightarrow> 's world" where
  "line w = put endl (put stars w)"

section \<open>The input loops\<close>

text \<open>
  \<^verbatim>\<open>getValidSize\<close> and \<^verbatim>\<open>getValidNumber\<close> are \<^verbatim>\<open>while (true)\<close> loops that only a
  successful read leaves, so they are partial: \<open>None\<close> is the run that re-prompts forever.
  The argument \<open>sz\<close> (\<open>input\<close>) is the content of the variable passed by reference.
\<close>

partial_function (option) getValidSize ::
  "'s iostream \<Rightarrow> int \<Rightarrow> 's world \<Rightarrow> (int \<times> 's world) option" where
  "getValidSize io sz w =
     (case get_int io (cin w) of
        (None, c) \<Rightarrow>
          getValidSize io (int_on_fail io (cin w) sz)
            (put ''Invalid input. Please enter a positive whole number: ''
               (w\<lparr>cin := clear_ignore io c\<rparr>))
      | (Some v, c) \<Rightarrow>
          if v \<le> 0
          then getValidSize io v
                 (put ''Invalid input. Please enter a positive whole number: ''
                    (w\<lparr>cin := clear_ignore io c\<rparr>))
          else Some (v, w\<lparr>cin := c\<rparr>))"

partial_function (option) getValidNumber ::
  "'s iostream \<Rightarrow> double \<Rightarrow> 's world \<Rightarrow> (double \<times> 's world) option" where
  "getValidNumber io input w =
     (case get_double io (cin w) of
        (None, c) \<Rightarrow>
          getValidNumber io (double_on_fail io (cin w) input)
            (put ''Invalid input. Please enter a valid number: ''
               (w\<lparr>cin := clear_ignore io c\<rparr>))
      | (Some v, c) \<Rightarrow> Some (v, w\<lparr>cin := c\<rparr>))"

subsection \<open>The size collector in the words of the specification\<close>

text \<open>
  \<open>valid_size_next\<close>: the next read succeeds with a positive value. \<open>reprompt_size\<close>: the
  variable and the streams after an attempt that was not valid, with the bad input discarded and
  the prompt written again. \<open>accept_size\<close>: the value read and the stream behind it.
\<close>

definition valid_size_next :: "'s iostream \<Rightarrow> 's world \<Rightarrow> bool" where
  "valid_size_next io w = (case fst (get_int io (cin w)) of None \<Rightarrow> False | Some v \<Rightarrow> 0 < v)"

definition reprompt_size :: "'s iostream \<Rightarrow> int \<times> 's world \<Rightarrow> int \<times> 's world" where
  "reprompt_size io =
     (\<lambda>(sz, w).
        ((case fst (get_int io (cin w)) of None \<Rightarrow> int_on_fail io (cin w) sz | Some v \<Rightarrow> v),
         put ''Invalid input. Please enter a positive whole number: ''
           (w\<lparr>cin := clear_ignore io (snd (get_int io (cin w)))\<rparr>)))"

definition accept_size :: "'s iostream \<Rightarrow> 's world \<Rightarrow> (int \<times> 's world) option" where
  "accept_size io w =
     (case get_int io (cin w) of (None, c) \<Rightarrow> None | (Some v, c) \<Rightarrow> Some (v, w\<lparr>cin := c\<rparr>))"

section \<open>The program\<close>

text \<open>
  The local variables of \<^verbatim>\<open>main\<close>. The three vectors start empty; \<open>size1\<close>, \<open>size2\<close>
  and \<open>num\<close> are declared without an initial value.
\<close>

record locals =
  arr1 :: "double list"
  arr2 :: "double list"
  mergedArray :: "double list"
  size1 :: int
  size2 :: int
  num :: double

text \<open>
  The loop \<^verbatim>\<open>for (int i = 0; i < size; i++) { getValidNumber(num); arr.push_back(num); }\<close>
  of lines 46 to 49 and 56 to 59, on the array and the size it is given.
\<close>

function read_elements ::
  "'s iostream \<Rightarrow> int \<Rightarrow> nat \<Rightarrow> double list \<Rightarrow> double \<Rightarrow> 's world
     \<Rightarrow> (double list \<times> double \<times> 's world) option" where
  "read_elements io sz i arr x w =
     (if int i < sz
      then (case getValidNumber io x w of
              None \<Rightarrow> None
            | Some (x', w') \<Rightarrow> read_elements io sz (i + 1) (arr @ [x']) x' w')
      else Some (arr, x, w))"
  by pat_completeness auto
termination
  by (relation "measure (\<lambda>(io, sz, i, arr, x, w). nat sz - i)") auto

declare read_elements.simps [simp del]

text \<open>Lines 44 to 49: the clamp of the accepted size, the prompt and the reads into \<open>arr1\<close>.\<close>

definition fill1 :: "'s iostream \<Rightarrow> locals \<Rightarrow> 's world \<Rightarrow> (locals \<times> 's world) option" where
  "fill1 io l w =
     (let l = (if size1 l > 10 then l\<lparr>size1 := 10\<rparr> else l);
          w = put (''Enter '' @ put_int (size1 l) @ '' elements: '') w
      in case read_elements io (size1 l) 0 (arr1 l) (num l) w of
           None \<Rightarrow> None
         | Some (a, x, w') \<Rightarrow> Some (l\<lparr>arr1 := a, num := x\<rparr>, w'))"

text \<open>Lines 41 to 49.\<close>

definition collect1 :: "'s iostream \<Rightarrow> locals \<Rightarrow> 's world \<Rightarrow> (locals \<times> 's world) option" where
  "collect1 io l w =
     (case getValidSize io (size1 l)
             (put ''How many would you want to place in the first array? (max 10): '' (line w)) of
        None \<Rightarrow> None
      | Some (v, w') \<Rightarrow> fill1 io (l\<lparr>size1 := v\<rparr>) w')"

text \<open>Lines 54 to 59 and 51 to 59: the same for \<open>size2\<close> and \<open>arr2\<close>.\<close>

definition fill2 :: "'s iostream \<Rightarrow> locals \<Rightarrow> 's world \<Rightarrow> (locals \<times> 's world) option" where
  "fill2 io l w =
     (let l = (if size2 l > 10 then l\<lparr>size2 := 10\<rparr> else l);
          w = put (''Enter '' @ put_int (size2 l) @ '' elements: '') w
      in case read_elements io (size2 l) 0 (arr2 l) (num l) w of
           None \<Rightarrow> None
         | Some (a, x, w') \<Rightarrow> Some (l\<lparr>arr2 := a, num := x\<rparr>, w'))"

definition collect2 :: "'s iostream \<Rightarrow> locals \<Rightarrow> 's world \<Rightarrow> (locals \<times> 's world) option" where
  "collect2 io l w =
     (case getValidSize io (size2 l)
             (put ''How many would you want to place in the second array? (max 10): '' (line w)) of
        None \<Rightarrow> None
      | Some (v, w') \<Rightarrow> fill2 io (l\<lparr>size2 := v\<rparr>) w')"

text \<open>
  Lines 61 and 62: \<^verbatim>\<open>for (int i = 0; i < size; i++) mergedArray.push_back(arr[i]);\<close>.
  The source reads \<open>arr[i]\<close> unchecked; in the program \<open>size\<close> is the length of \<open>arr\<close>
  (lemma \<open>read_elements_length\<close> below), so the index is in range.
\<close>

function push_all :: "double list \<Rightarrow> int \<Rightarrow> nat \<Rightarrow> double list \<Rightarrow> double list" where
  "push_all arr sz i merged =
     (if int i < sz then push_all arr sz (i + 1) (merged @ [arr ! i]) else merged)"
  by pat_completeness auto
termination
  by (relation "measure (\<lambda>(arr, sz, i, merged). nat sz - i)") auto

declare push_all.simps [simp del]

definition concatenate :: "locals \<Rightarrow> locals" where
  "concatenate l =
     (let l = l\<lparr>mergedArray := push_all (arr1 l) (size1 l) 0 (mergedArray l)\<rparr>
      in l\<lparr>mergedArray := push_all (arr2 l) (size2 l) 0 (mergedArray l)\<rparr>)"

text \<open>Lines 79 to 84. The loop writes every element and a space after it, then \<^verbatim>\<open>endl\<close>.\<close>

function print_loop :: "'s iostream \<Rightarrow> double list \<Rightarrow> nat \<Rightarrow> nat \<Rightarrow> 's world \<Rightarrow> 's world" where
  "print_loop io a n i w =
     (if i < n
      then print_loop io a n (i + 1) (put '' '' (put (put_double io (a ! i)) w))
      else w)"
  by pat_completeness auto
termination
  by (relation "measure (\<lambda>(io, a, n, i, w). n - i)") auto

declare print_loop.simps [simp del]

definition print_elements :: "'s iostream \<Rightarrow> double list \<Rightarrow> 's world \<Rightarrow> 's world" where
  "print_elements io a w = put endl (print_loop io a (length a) 0 w)"

definition print_sorted :: "'s iostream \<Rightarrow> double list \<Rightarrow> 's world \<Rightarrow> 's world" where
  "print_sorted io a w = print_elements io a (put ''Merged and sorted array: '' (line w))"

text \<open>
  The whole of \<^verbatim>\<open>main\<close>: the result is the text on \<^verbatim>\<open>cout\<close> and the exit code, or \<open>None\<close>
  when an input loop never ends. The arguments \<open>g1\<close>, \<open>g2\<close> and \<open>g3\<close> are the indeterminate
  initial contents of \<open>size1\<close>, \<open>size2\<close> and \<open>num\<close>. The variable \<open>n\<close> of the source is
  the length of \<open>mergedArray\<close>, which the sort does not change.
\<close>

definition main :: "'s iostream \<Rightarrow> int \<Rightarrow> int \<Rightarrow> double \<Rightarrow> 's \<Rightarrow> (string \<times> int) option" where
  "main io g1 g2 g3 stdin =
     (case collect1 io
             \<lparr>arr1 = [], arr2 = [], mergedArray = [], size1 = g1, size2 = g2, num = g3\<rparr>
             \<lparr>cin = stdin, cout = []\<rparr> of
        None \<Rightarrow> None
      | Some (l, w) \<Rightarrow>
          (case collect2 io l w of
             None \<Rightarrow> None
           | Some (l, w) \<Rightarrow>
               (let l = concatenate l;
                    l = l\<lparr>mergedArray := selection_sort (mergedArray l)\<rparr>;
                    w = print_sorted io (mergedArray l) w
                in Some (cout w, 0))))"

subsection \<open>The output in the words of the specification\<close>

text \<open>The elements separated by a single space, followed by a newline.\<close>

fun separated :: "string list \<Rightarrow> string" where
  "separated [] = []"
| "separated [s] = s"
| "separated (s # t # ts) = s @ '' '' @ separated (t # ts)"

definition spec_printed :: "(double \<Rightarrow> string) \<Rightarrow> double list \<Rightarrow> string" where
  "spec_printed fmt a = separated (map fmt a) @ endl"

section \<open>A scripted input for examples\<close>

text \<open>
  An input of one token per line. Each entry records what the library reads from the token as an
  \<^verbatim>\<open>int\<close> and as a \<^verbatim>\<open>double\<close>, if it can. The state is the list of the lines still to
  read and a flag that tells whether the token of the line before has been read and its newline
  has not. A successful read consumes the token, a failed one stops in front of it and leaves
  the line to \<open>clear_ignore\<close>, which discards up to the next newline; at the end of the input
  every read fails and leaves the variable as it was.
\<close>

datatype entry = Entry (as_int: "int option") (as_double: "double option")

type_synonym script = "bool \<times> entry list"

definition script_io :: "(double \<Rightarrow> string) \<Rightarrow> script iostream" where
  "script_io fmt =
     \<lparr>get_int = (\<lambda>(p, s). case s of [] \<Rightarrow> (None, (False, []))
                  | e # es \<Rightarrow> (case as_int e of None \<Rightarrow> (None, (False, s))
                              | Some v \<Rightarrow> (Some v, (True, es)))),
      int_on_fail = (\<lambda>(p, s) old. case s of [] \<Rightarrow> old | e # es \<Rightarrow> 0),
      get_double = (\<lambda>(p, s). case s of [] \<Rightarrow> (None, (False, []))
                  | e # es \<Rightarrow> (case as_double e of None \<Rightarrow> (None, (False, s))
                              | Some v \<Rightarrow> (Some v, (True, es)))),
      double_on_fail = (\<lambda>(p, s) old. case s of [] \<Rightarrow> old | e # es \<Rightarrow> Double False 0 0),
      clear_ignore = (\<lambda>(p, s). if p then (False, s) else (False, drop 1 s)),
      put_double = fmt\<rparr>"

text \<open>The doubles 1, 2, 3, 5 and 7, a NaN, and how \<^verbatim>\<open>cout\<close> writes the first five.\<close>

definition d1 :: double where "d1 = Double False 1023 0"
definition d2 :: double where "d2 = Double False 1024 0"
definition d3 :: double where "d3 = Double False 1024 0x8000000000000"
definition d5 :: double where "d5 = Double False 1025 0x4000000000000"
definition d7 :: double where "d7 = Double False 1025 0xC000000000000"
definition dnan :: double where "dnan = Double False 2047 0x8000000000000"

definition fmt_small :: "double \<Rightarrow> string" where
  "fmt_small d =
     (if d = d1 then ''1'' else if d = d2 then ''2'' else if d = d3 then ''3''
      else if d = d5 then ''5'' else if d = d7 then ''7'' else ''?'')"

definition number :: "int \<Rightarrow> double \<Rightarrow> entry" where
  "number v d = Entry (Some v) (Some d)"

definition junk :: entry where
  "junk = Entry None None"

section \<open>Properties of the comparison\<close>

lemma dge_refl: "\<not> isnan a \<Longrightarrow> dge a a" by (simp add: dge_def)
lemma dge_trans: "dge a b \<Longrightarrow> dge b c \<Longrightarrow> dge a c" by (auto simp: dge_def)
lemma not_dgt_dge: "\<not> isnan a \<Longrightarrow> \<not> isnan b \<Longrightarrow> \<not> dgt a b \<Longrightarrow> dge b a" by (auto simp: dge_def dgt_def)
lemma dgt_dge: "dgt a b \<Longrightarrow> dge a b" by (auto simp: dge_def dgt_def)
lemma dgt_not_dge: "dgt a b \<Longrightarrow> \<not> dge b a" by (auto simp: dge_def dgt_def)
lemma dge_not_dgt: "dge a b \<Longrightarrow> \<not> dgt b a" by (auto simp: dge_def dgt_def)
lemma dgt_irrefl: "\<not> dgt a a" by (simp add: dgt_def)

lemma dgt_replace: "dgt b c \<Longrightarrow> \<not> dgt a c \<Longrightarrow> \<not> dgt a b"
  by (auto simp: dgt_def)

lemma dgt_dge_trans: "dgt a b \<Longrightarrow> dge b c \<Longrightarrow> dgt a c" by (auto simp: dge_def dgt_def)

section \<open>Properties of the sort\<close>

lemma scan_bounds: "maxIndex < j \<Longrightarrow> j \<le> n \<Longrightarrow> maxIndex \<le> scan a n j maxIndex \<and> scan a n j maxIndex < n"
proof (induction a n j maxIndex rule: scan.induct)
  case (1 a n j maxIndex)
  show ?case
  proof (cases "j < n")
    case True
    let ?m = "if dgt (a ! j) (a ! maxIndex) then j else maxIndex"
    have "?m < j + 1" "j + 1 \<le> n" using True 1 by auto
    from "1.IH"[OF True this] show ?thesis using True 1 by (subst (1 2) scan.simps) auto
  next
    case False
    then show ?thesis using 1 by (subst (1 2) scan.simps) auto
  qed
qed

lemma is_first_max_step:
  assumes "is_first_max a i j m" "\<not> isnan (a ! j)"
  shows "is_first_max a i (j + 1) (if dgt (a ! j) (a ! m) then j else m)"
proof (cases "dgt (a ! j) (a ! m)")
  case True
  have "dgt (a ! j) (a ! q)" if "i \<le> q" "q < j" for q
    using assms(1) True that dgt_dge_trans unfolding is_first_max_def by blast
  moreover have "dge (a ! j) (a ! j)" using assms(2) by (rule dge_refl)
  ultimately show ?thesis using True assms(1)
    by (auto simp: is_first_max_def less_Suc_eq dgt_dge)
next
  case False
  have nm: "\<not> isnan (a ! m)" using assms(1) by (auto simp: is_first_max_def dge_def)
  have "dge (a ! m) (a ! j)" using not_dgt_dge[OF assms(2) nm False] .
  then show ?thesis using False assms(1)
    by (auto simp: is_first_max_def less_Suc_eq)
qed

lemma scan_first_max:
  "is_first_max a i j m \<Longrightarrow> j \<le> n \<Longrightarrow> \<forall>q<n. \<not> isnan (a ! q) \<Longrightarrow> is_first_max a i n (scan a n j m)"
proof (induction a n j m rule: scan.induct)
  case (1 a n j m)
  show ?case
  proof (cases "j < n")
    case True
    let ?m = "if dgt (a ! j) (a ! m) then j else m"
    have "is_first_max a i (j + 1) ?m" using is_first_max_step[OF "1.prems"(1)] True "1.prems"(3) by blast
    from "1.IH"[OF True this] True "1.prems"(3) show ?thesis by (subst scan.simps) simp
  next
    case False
    then show ?thesis using 1 by (subst scan.simps) simp
  qed
qed

lemma is_first_max_init: "\<not> isnan (a ! i) \<Longrightarrow> is_first_max a i (i + 1) i"
  by (auto simp: is_first_max_def less_Suc_eq_le dge_refl)

lemma length_swap [simp]: "length (swap a i k) = length a"
  by (simp add: swap_def)

lemma nth_swap: "i < length a \<Longrightarrow> k < length a \<Longrightarrow> p < length a \<Longrightarrow>
  swap a i k ! p = (if p = k then a ! i else if p = i then a ! k else a ! p)"
  by (simp add: swap_def nth_list_update)

lemma mset_swap_arr: "i < length a \<Longrightarrow> k < length a \<Longrightarrow> mset (swap a i k) = mset a"
  by (simp add: swap_def mset_swap)

lemma swap_self [simp]: "swap a i i = a"
  by (simp add: swap_def)

lemma nonan_nth: "nonan a \<longleftrightarrow> (\<forall>q<length a. \<not> isnan (a ! q))"
  by (simp add: nonan_def list_all_length)

lemma nonan_mset: "mset a = mset b \<Longrightarrow> nonan a = nonan b"
  by (metis nonan_def list_all_iff mset_eq_setD)

lemma mset_sort_loop: "length a = n \<Longrightarrow> mset (sort_loop a n i) = mset a"
proof (induction a n i rule: sort_loop.induct)
  case (1 a n i)
  show ?case
  proof (cases "i + 1 < n")
    case True
    let ?k = "scan a n (i + 1) i"
    have k: "?k < n" using scan_bounds[of i "i + 1" n a] True by simp
    have "mset (swap a i ?k) = mset a" using k True 1 by (simp add: mset_swap_arr)
    moreover have "mset (sort_loop (swap a i ?k) n (i + 1)) = mset (swap a i ?k)"
      using "1.IH"[OF True] "1.prems" by simp
    ultimately show ?thesis using True by (subst sort_loop.simps) simp
  next
    case False
    then show ?thesis by (subst sort_loop.simps) simp
  qed
qed

lemma length_sort_loop: "length a = n \<Longrightarrow> length (sort_loop a n i) = n"
  by (metis mset_sort_loop size_mset)

lemma scan_no_greater:
  "i \<le> m \<Longrightarrow> m < j \<Longrightarrow> j \<le> n \<Longrightarrow> (\<forall>q. i \<le> q \<and> q < j \<longrightarrow> \<not> dgt (a ! q) (a ! m)) \<Longrightarrow>
   (\<forall>q. i \<le> q \<and> q < n \<longrightarrow> \<not> dgt (a ! q) (a ! scan a n j m))"
proof (induction a n j m rule: scan.induct)
  case (1 a n j m)
  show ?case
  proof (cases "j < n")
    case True
    let ?m = "if dgt (a ! j) (a ! m) then j else m"
    have inv: "\<forall>q. i \<le> q \<and> q < j + 1 \<longrightarrow> \<not> dgt (a ! q) (a ! ?m)"
    proof (intro allI impI)
      fix q assume q: "i \<le> q \<and> q < j + 1"
      show "\<not> dgt (a ! q) (a ! ?m)"
      proof (cases "dgt (a ! j) (a ! m)")
        case True
        show ?thesis
        proof (cases "q = j")
          case True
          then show ?thesis using \<open>dgt (a ! j) (a ! m)\<close> by (simp add: dgt_irrefl)
        next
          case False
          then have "\<not> dgt (a ! q) (a ! m)" using q "1.prems"(4) by simp
          with \<open>dgt (a ! j) (a ! m)\<close> have "\<not> dgt (a ! q) (a ! j)" by (rule dgt_replace)
          then show ?thesis using \<open>dgt (a ! j) (a ! m)\<close> by simp
        qed
      next
        case False
        then show ?thesis using q "1.prems"(4) by (cases "q = j") auto
      qed
    qed
    have "i \<le> ?m" "?m < j + 1" "j + 1 \<le> n" using "1.prems" True by auto
    from "1.IH"[OF True this inv] True show ?thesis by (subst scan.simps) simp
  next
    case False
    then show ?thesis using "1.prems" by (subst scan.simps) simp
  qed
qed

lemma settled_step:
  assumes inv: "settled a i" and i: "i < length a"
  shows "settled (swap a i (scan a (length a) (i + 1) i)) (i + 1)"
proof -
  let ?n = "length a" let ?k = "scan a ?n (i + 1) i"
  have k: "i \<le> ?k" "?k < ?n" using scan_bounds[of i "i + 1" ?n a] i by simp_all
  have start: "\<forall>q. i \<le> q \<and> q < i + 1 \<longrightarrow> \<not> dgt (a ! q) (a ! i)"
  proof (intro allI impI)
    fix q assume "i \<le> q \<and> q < i + 1"
    then have "q = i" by simp
    then show "\<not> dgt (a ! q) (a ! i)" by (simp add: dgt_irrefl)
  qed
  have "\<forall>q. i \<le> q \<and> q < ?n \<longrightarrow> \<not> dgt (a ! q) (a ! ?k)"
    by (rule scan_no_greater[OF _ _ _ start]) (use i in simp_all)
  then have mx: "\<And>q. i \<le> q \<Longrightarrow> q < ?n \<Longrightarrow> \<not> dgt (a ! q) (a ! ?k)" by blast
  show ?thesis unfolding settled_def
  proof (intro allI impI)
    fix p q assume h: "p < i + 1 \<and> p < q \<and> q < length (swap a i ?k)"
    then have q: "q < ?n" "p < ?n" "p < q" by auto
    show "\<not> dgt (swap a i ?k ! q) (swap a i ?k ! p)"
    proof (cases "p = i")
      case True
      then have "swap a i ?k ! p = a ! ?k" using i k by (simp add: nth_swap)
      moreover have "swap a i ?k ! q = a ! (if q = ?k then i else q)"
        using i k q True by (simp add: nth_swap)
      moreover have "i \<le> (if q = ?k then i else q)" "(if q = ?k then i else q) < ?n"
        using i q True by auto
      ultimately show ?thesis using mx[of "if q = ?k then i else q"] by simp
    next
      case False
      then have pi: "p < i" using h by simp
      then have "swap a i ?k ! p = a ! p" using i k q by (simp add: nth_swap)
      moreover have "swap a i ?k ! q = a ! (if q = ?k then i else if q = i then ?k else q)"
        using i k q by (simp add: nth_swap)
      moreover have "p < (if q = ?k then i else if q = i then ?k else q)"
        "(if q = ?k then i else if q = i then ?k else q) < ?n"
        using i k q pi by auto
      moreover have "\<not> dgt (a ! (if q = ?k then i else if q = i then ?k else q)) (a ! p)"
        using inv pi calculation(3,4) unfolding settled_def by blast
      ultimately show ?thesis by simp
    qed
  qed
qed

lemma sort_loop_settled:
  "length a = n \<Longrightarrow> settled a i \<Longrightarrow> settled (sort_loop a n i) n"
proof (induction a n i rule: sort_loop.induct)
  case (1 a n i)
  show ?case
  proof (cases "i + 1 < n")
    case True
    have "settled (swap a i (scan a n (i + 1) i)) (i + 1)"
      using settled_step[OF "1.prems"(2)] True "1.prems"(1) by simp
    from "1.IH"[OF True _ this] "1.prems"(1) True show ?thesis by (subst sort_loop.simps) simp
  next
    case False
    then have "settled a n" using "1.prems" by (auto simp: settled_def)
    then show ?thesis using False by (subst sort_loop.simps) simp
  qed
qed

lemma scan_keeps: "\<forall>q. j \<le> q \<and> q < n \<longrightarrow> \<not> dgt (a ! q) (a ! m) \<Longrightarrow> scan a n j m = m"
proof (induction a n j m rule: scan.induct)
  case (1 a n j m)
  show ?case
  proof (cases "j < n")
    case True
    then have ng: "\<not> dgt (a ! j) (a ! m)" using "1.prems" by simp
    have "scan a n (j + 1) m = m" using "1.IH"[OF True] ng "1.prems" by simp
    then show ?thesis using True ng by (subst scan.simps) simp
  next
    case False
    then show ?thesis by (subst scan.simps) simp
  qed
qed

lemma sort_loop_keeps:
  "\<forall>p q. i \<le> p \<and> p < q \<and> q < n \<longrightarrow> \<not> dgt (a ! q) (a ! p) \<Longrightarrow> sort_loop a n i = a"
proof (induction a n i rule: sort_loop.induct)
  case (1 a n i)
  show ?case
  proof (cases "i + 1 < n")
    case True
    have k: "scan a n (i + 1) i = i" using "1.prems" by (intro scan_keeps) auto
    have "sort_loop (swap a i (scan a n (i + 1) i)) n (i + 1) = swap a i (scan a n (i + 1) i)"
      using "1.IH"[OF True] "1.prems" k by simp
    then show ?thesis using True k by (subst sort_loop.simps) simp
  next
    case False
    then show ?thesis by (subst sort_loop.simps) simp
  qed
qed

lemma nonincreasing_sorted_wrt: "nonincreasing a \<longleftrightarrow> sorted_wrt dge a"
proof (induction a rule: nonincreasing.induct)
  case (3 x y zs)
  show ?case
  proof
    assume h: "nonincreasing (x # y # zs)"
    then have xy: "dge x y" and s: "sorted_wrt dge (y # zs)" using 3 by auto
    have "dge x z" if "z \<in> set zs" for z using xy s that dge_trans by auto
    then show "sorted_wrt dge (x # y # zs)" using xy s by auto
  next
    assume "sorted_wrt dge (x # y # zs)"
    then show "nonincreasing (x # y # zs)" using 3 by auto
  qed
qed simp_all

lemma nonincreasing_pairs:
  "nonincreasing a \<longleftrightarrow> (\<forall>p q. p < q \<and> q < length a \<longrightarrow> dge (a ! p) (a ! q))"
  by (auto simp: nonincreasing_sorted_wrt sorted_wrt_iff_nth_less)

lemma nonincreasing_neighbours:
  "nonincreasing a \<longleftrightarrow> (\<forall>i. i + 1 < length a \<longrightarrow> dge (a ! i) (a ! (i + 1)))"
proof (induction a rule: nonincreasing.induct)
  case (3 x y zs)
  have "(\<forall>i. i + 1 < length (x # y # zs) \<longrightarrow> dge ((x # y # zs) ! i) ((x # y # zs) ! (i + 1)))
     \<longleftrightarrow> dge x y \<and> (\<forall>i. i + 1 < length (y # zs) \<longrightarrow> dge ((y # zs) ! i) ((y # zs) ! (i + 1)))"
    (is "?L \<longleftrightarrow> ?R")
  proof
    assume l: ?L
    have "dge x y" using l[rule_format, of 0] by simp
    moreover have "dge ((y # zs) ! i) ((y # zs) ! (i + 1))" if "i + 1 < length (y # zs)" for i
      using l[rule_format, of "Suc i"] that by simp
    ultimately show ?R by blast
  next
    assume r: ?R
    show ?L
    proof (intro allI impI)
      fix i assume "i + 1 < length (x # y # zs)"
      then show "dge ((x # y # zs) ! i) ((x # y # zs) ! (i + 1))"
        using r by (cases i) auto
    qed
  qed
  then show ?case using 3 by simp
qed simp_all

lemma length_selection_sort [simp]: "length (selection_sort a) = length a"
  by (simp add: selection_sort_def length_sort_loop)

lemma selection_sort_settled: "settled (selection_sort a) (length a)"
  unfolding selection_sort_def
  using sort_loop_settled[of a "length a" 0] by (simp add: settled_def)

lemma selection_sort_nonincreasing: "nonan a \<Longrightarrow> nonincreasing (selection_sort a)"
proof -
  assume n: "nonan a"
  have "mset (selection_sort a) = mset a" by (simp add: selection_sort_def mset_sort_loop)
  then have nn: "nonan (selection_sort a)" using n nonan_mset by blast
  have "dge (selection_sort a ! p) (selection_sort a ! q)" if "p < q" "q < length (selection_sort a)" for p q
  proof -
    have "\<not> dgt (selection_sort a ! q) (selection_sort a ! p)"
      using selection_sort_settled[of a] that by (simp add: settled_def)
    moreover have "\<not> isnan (selection_sort a ! q)" "\<not> isnan (selection_sort a ! p)"
      using nn that by (simp_all add: nonan_nth)
    ultimately show ?thesis using not_dgt_dge by blast
  qed
  then show ?thesis by (simp add: nonincreasing_pairs)
qed

lemma selection_sort_fixed: "nonincreasing a \<Longrightarrow> selection_sort a = a"
  unfolding selection_sort_def
  by (rule sort_loop_keeps) (auto simp: nonincreasing_pairs dge_not_dgt)

lemma selection_sort_twice: "selection_sort (selection_sort a) = selection_sort a"
proof -
  let ?r = "selection_sort a"
  have len: "length ?r = length a" by (simp add: selection_sort_def length_sort_loop)
  have "\<forall>p q. 0 \<le> p \<and> p < q \<and> q < length ?r \<longrightarrow> \<not> dgt (?r ! q) (?r ! p)"
    using selection_sort_settled[of a] len by (simp add: settled_def)
  then have "sort_loop ?r (length ?r) 0 = ?r" by (rule sort_loop_keeps)
  then show ?thesis by (simp add: selection_sort_def[of ?r])
qed

lemma first_max_scan:
  assumes nn: "nonan a" and i: "i < length a"
  shows "first_max a i = Some (scan a (length a) (i + 1) i)"
proof -
  let ?n = "length a" let ?k = "scan a ?n (i + 1) i"
  have "\<not> isnan (a ! i)" using nn i by (simp add: nonan_nth)
  then have "is_first_max a i (i + 1) i" by (rule is_first_max_init)
  then have fm: "is_first_max a i ?n ?k"
    using scan_first_max[of a i "i + 1" i ?n] nn i by (simp add: nonan_nth)
  then have k: "i \<le> ?k" "?k < ?n" by (auto simp: is_first_max_def)
  have mx: "is_max_of_rest a i ?k" using fm by (auto simp: is_first_max_def is_max_of_rest_def list_all_iff)
  have nomax: "\<not> is_max_of_rest a i q" if "i \<le> q" "q < ?k" for q
  proof -
    have "dgt (a ! ?k) (a ! q)" using fm that by (auto simp: is_first_max_def)
    then have "\<not> dge (a ! q) (a ! ?k)" by (rule dgt_not_dge)
    then show ?thesis using k by (auto simp: is_max_of_rest_def list_all_iff)
  qed
  show ?thesis unfolding first_max_def find_Some_iff
  proof (intro exI[of _ "?k - i"] conjI)
    show "?k - i < length [i..<?n]" using k by simp
    show "is_max_of_rest a i ([i..<?n] ! (?k - i))" using k mx by simp
    show "?k = [i..<?n] ! (?k - i)" using k by simp
    show "\<forall>j<?k - i. \<not> is_max_of_rest a i ([i..<?n] ! j)"
    proof (intro allI impI)
      fix j assume "j < ?k - i"
      then have "i \<le> i + j" "i + j < ?k" "[i..<?n] ! j = i + j" using k by auto
      then show "\<not> is_max_of_rest a i ([i..<?n] ! j)" using nomax by simp
    qed
  qed
qed

lemma spec_sort_from_sort_loop:
  "nonan a \<Longrightarrow> length a = n \<Longrightarrow> spec_sort_from a i = Some (sort_loop a n i)"
proof (induction a n i rule: sort_loop.induct)
  case (1 a n i)
  show ?case
  proof (cases "i + 1 < n")
    case True
    let ?k = "scan a n (i + 1) i"
    have k: "?k < n" using scan_bounds[of i "i + 1" n a] True by simp
    have "mset (swap a i ?k) = mset a" using k True 1 by (simp add: mset_swap_arr)
    then have nn: "nonan (swap a i ?k)" using "1.prems"(1) nonan_mset by blast
    have fm: "first_max a i = Some ?k" using first_max_scan[OF "1.prems"(1), of i] True "1.prems"(2) by simp
    have "spec_sort_from (swap a i ?k) (i + 1) = Some (sort_loop (swap a i ?k) n (i + 1))"
      using "1.IH"[OF True nn] "1.prems"(2) by simp
    then show ?thesis using True fm "1.prems"(2)
      by (subst spec_sort_from.simps, subst sort_loop.simps) simp
  next
    case False
    then show ?thesis using "1.prems"(2)
      by (subst spec_sort_from.simps, subst sort_loop.simps) simp
  qed
qed


lemmas double_eval =
  dgt_def dge_def isnan_def dkey_def magnitude_def nonan_def
  d1_def d2_def d3_def d5_def d7_def dnan_def

lemmas sort_eval = selection_sort_def sort_loop.simps scan.simps swap_def

section \<open>The claims about the sort\<close>

text \<open>
  C1. When no element of the merged sequence is a NaN, the sequence after the selection sort is
  non-increasing: every element \<open>i\<close> with a successor is greater than or equal to element
  \<open>i + 1\<close>.
\<close>

theorem sort_descending:
  "nonan a \<Longrightarrow>
   (\<forall>i. i + 1 < length (selection_sort a) \<longrightarrow>
      dge (selection_sort a ! i) (selection_sort a ! (i + 1)))"
  using selection_sort_nonincreasing[of a] by (simp add: nonincreasing_neighbours)

theorem sort_descending_witness:
  "nonan [d1, d5, d3, d2, d2] \<and>
   dge (selection_sort [d1, d5, d3, d2, d2] ! 0) (selection_sort [d1, d5, d3, d2, d2] ! 1) \<and>
   dge (selection_sort [d1, d5, d3, d2, d2] ! 3) (selection_sort [d1, d5, d3, d2, d2] ! 4)"
proof -
  have n: "nonan [d1, d5, d3, d2, d2]" by (simp add: double_eval)
  show ?thesis
    using n sort_descending[OF n, rule_format, of 0] sort_descending[OF n, rule_format, of 3]
    by simp
qed

text \<open>
  C2. The sequence after the selection sort is a permutation of the sequence before it: both
  have the same multiset of values and the same length. For the concatenation of two arrays
  this is the multiset of all the values entered.
\<close>

theorem sort_permutation:
  "mset (selection_sort a) = mset a \<and>
   mset (selection_sort (xs @ ys)) = mset xs + mset ys \<and>
   length (selection_sort a) = length a"
proof -
  have perm: "mset (selection_sort b) = mset b" for b
    unfolding selection_sort_def by (rule mset_sort_loop) simp
  have "length (selection_sort a) = length a"
    unfolding selection_sort_def by (rule length_sort_loop) simp
  then show ?thesis using perm[of a] perm[of "xs @ ys"] by simp
qed

text \<open>
  C3. On a sequence without NaN the loops compute what the specified algorithm does: at every
  position \<open>i\<close> the scan with the strict comparison returns the first position that holds a
  maximum of the elements from \<open>i\<close> on, and exchanging at those positions for \<open>i\<close> from
  \<open>0\<close> to \<open>n - 2\<close> gives the result of the sort.
\<close>

theorem sort_follows_algorithm:
  "nonan a \<Longrightarrow>
   spec_sort a = Some (selection_sort a) \<and>
   (\<forall>i. i < length a \<longrightarrow> first_max a i = Some (scan a (length a) (i + 1) i))"
  by (simp add: spec_sort_def selection_sort_def spec_sort_from_sort_loop first_max_scan)

theorem sort_follows_algorithm_witness:
  "nonan [d1, d5, d3, d5, d2] \<and>
   spec_sort [d1, d5, d3, d5, d2] = Some [d5, d5, d3, d2, d1] \<and>
   first_max [d1, d5, d3, d5, d2] 0 = Some 1"
proof -
  have n: "nonan [d1, d5, d3, d5, d2]" by (simp add: double_eval)
  show ?thesis
    using n sort_follows_algorithm[OF n]
    by (simp add: sort_eval double_eval)
qed

text \<open>
  C9. The sort is idempotent. A sequence that is already non-increasing is returned unchanged,
  and every scan on it ends with \<open>maxIndex = i\<close>, so that each exchange is of a position with
  itself; so is every sequence of length 0 or 1, and so is the output of the sort, for every
  input.
\<close>

theorem sort_idempotent:
  "(nonincreasing a \<longrightarrow>
      selection_sort a = a \<and> (\<forall>i. i + 1 < length a \<longrightarrow> scan a (length a) (i + 1) i = i)) \<and>
   (length a \<le> 1 \<longrightarrow> selection_sort a = a) \<and>
   selection_sort (selection_sort a) = selection_sort a"
proof (intro conjI impI allI)
  assume "nonincreasing a" then show "selection_sort a = a" by (rule selection_sort_fixed)
next
  fix i assume h: "nonincreasing a" "i + 1 < length a"
  show "scan a (length a) (i + 1) i = i"
    by (rule scan_keeps) (use h in \<open>auto simp: nonincreasing_pairs dge_not_dgt\<close>)
next
  assume "length a \<le> 1"
  then have "nonincreasing a" by (cases a rule: nonincreasing.cases) auto
  then show "selection_sort a = a" by (rule selection_sort_fixed)
next
  show "selection_sort (selection_sort a) = selection_sort a" by (rule selection_sort_twice)
qed

theorem sort_idempotent_witness:
  "nonincreasing [d5, d3, d2, d2, d1] \<and>
   selection_sort [d5, d3, d2, d2, d1] = [d5, d3, d2, d2, d1] \<and>
   scan [d5, d3, d2, d2, d1] 5 3 2 = 2 \<and>
   selection_sort [d7] = [d7] \<and>
   selection_sort (selection_sort [d1, d5, d3, d2, d2]) = selection_sort [d1, d5, d3, d2, d2]"
proof -
  let ?s = "[d5, d3, d2, d2, d1]"
  have s: "nonincreasing ?s" by (simp add: double_eval)
  from sort_idempotent[of ?s] s
  have fixed: "selection_sort ?s = ?s"
    and self: "\<forall>i. i + 1 < length ?s \<longrightarrow> scan ?s (length ?s) (i + 1) i = i"
    by blast+
  have len: "length ?s = 5" by simp
  have "scan ?s (length ?s) (2 + 1) 2 = 2" using self[rule_format, of 2] len by linarith
  then have "scan ?s 5 3 2 = 2" unfolding len by simp
  moreover from sort_idempotent[of "[d7]"] have "selection_sort [d7] = [d7]" by simp
  moreover from sort_idempotent[of "[d1, d5, d3, d2, d2]"]
  have "selection_sort (selection_sort [d1, d5, d3, d2, d2]) = selection_sort [d1, d5, d3, d2, d2]"
    by blast
  ultimately show ?thesis using s fixed by blast
qed

section \<open>Properties of the input loops\<close>

lemma getValidSize_result:
  "getValidSize io sz w = Some y \<Longrightarrow> 0 < fst y \<and> (\<exists>c. get_int io c = (Some (fst y), cin (snd y)))"
proof (induct io sz w y rule: getValidSize.raw_induct[rotated 1, consumes 1])
  case (1 f io sz w y)
  note IH = 1(1) and body = 1(2)
  obtain r c where g: "get_int io (cin w) = (r, c)" by (cases "get_int io (cin w)")
  show ?case
  proof (cases r)
    case None
    then show ?thesis using IH body g by simp
  next
    case (Some u)
    show ?thesis
    proof (cases "u \<le> 0")
      case True
      then show ?thesis using IH body g Some by simp
    next
      case False
      then have "y = (u, w\<lparr>cin := c\<rparr>)" using body g Some by simp
      then show ?thesis using False g Some by auto
    qed
  qed
qed

lemma getValidSize_positive:
  "getValidSize io sz w = Some (v, w') \<Longrightarrow> 0 < v \<and> (\<exists>c. get_int io c = (Some v, cin w'))"
  using getValidSize_result[of io sz w "(v, w')"] by simp

lemma getValidSize_reprompt:
  "\<not> valid_size_next io w \<Longrightarrow>
   getValidSize io sz w = (case reprompt_size io (sz, w) of (sz', w') \<Rightarrow> getValidSize io sz' w')"
  by (subst getValidSize.simps)
     (auto simp: valid_size_next_def reprompt_size_def split: prod.splits option.splits)

lemma getValidSize_accept:
  "valid_size_next io w \<Longrightarrow> getValidSize io sz w = accept_size io w"
  by (subst getValidSize.simps)
     (auto simp: valid_size_next_def accept_size_def split: prod.splits option.splits)

lemma getValidSize_after_retries:
  "(\<forall>j<k. \<not> valid_size_next io (snd ((reprompt_size io ^^ j) (sz, w)))) \<Longrightarrow>
   valid_size_next io (snd ((reprompt_size io ^^ k) (sz, w))) \<Longrightarrow>
   getValidSize io sz w = accept_size io (snd ((reprompt_size io ^^ k) (sz, w)))"
proof (induction k arbitrary: sz w)
  case 0
  then show ?case by (simp add: getValidSize_accept)
next
  case (Suc k)
  obtain sz' w' where r: "reprompt_size io (sz, w) = (sz', w')" by (cases "reprompt_size io (sz, w)")
  have nv: "\<not> valid_size_next io w" using Suc.prems(1)[rule_format, of 0] by simp
  have a: "\<forall>j<k. \<not> valid_size_next io (snd ((reprompt_size io ^^ j) (sz', w')))"
  proof (intro allI impI)
    fix j assume "j < k"
    then show "\<not> valid_size_next io (snd ((reprompt_size io ^^ j) (sz', w')))"
      using Suc.prems(1)[rule_format, of "Suc j"] r by (simp add: funpow_swap1)
  qed
  have b: "valid_size_next io (snd ((reprompt_size io ^^ k) (sz', w')))"
    using Suc.prems(2) r by (simp add: funpow_swap1)
  have "getValidSize io sz w = getValidSize io sz' w'"
    using getValidSize_reprompt[OF nv, of sz] r by simp
  also have "\<dots> = accept_size io (snd ((reprompt_size io ^^ k) (sz', w')))"
    using Suc.IH[OF a b] .
  finally show ?case using r by (simp add: funpow_swap1)
qed

lemma getValidSize_some_valid:
  "getValidSize io sz w = Some y \<Longrightarrow> \<exists>k. valid_size_next io (snd ((reprompt_size io ^^ k) (sz, w)))"
proof (induct io sz w y rule: getValidSize.raw_induct[rotated 1, consumes 1])
  case (1 f io sz w y)
  note IH = 1(1) and body = 1(2)
  show ?case
  proof (cases "valid_size_next io w")
    case True
    then have "valid_size_next io (snd ((reprompt_size io ^^ 0) (sz, w)))" by simp
    then show ?thesis by blast
  next
    case False
    obtain sz' w' where r: "reprompt_size io (sz, w) = (sz', w')" by (cases "reprompt_size io (sz, w)")
    have "f io sz' w' = Some y"
      using body False r
      by (auto simp: valid_size_next_def reprompt_size_def split: prod.splits option.splits if_splits)
    then obtain k where "valid_size_next io (snd ((reprompt_size io ^^ k) (sz', w')))"
      using IH by blast
    then have "valid_size_next io (snd ((reprompt_size io ^^ Suc k) (sz, w)))"
      using r by (simp add: funpow_swap1)
    then show ?thesis by blast
  qed
qed

lemma getValidSize_old_le:
  "getValidSize io sz w = Some y \<Longrightarrow> getValidSize io sz' w = Some y"
proof (induct io sz w y arbitrary: sz' rule: getValidSize.raw_induct[rotated 1, consumes 1])
  case (1 f io sz w y)
  note IH = 1(1) and body = 1(2)
  obtain r c where g: "get_int io (cin w) = (r, c)" by (cases "get_int io (cin w)")
  show ?case
  proof (cases r)
    case None
    then have "f io (int_on_fail io (cin w) sz)
        (put ''Invalid input. Please enter a positive whole number: '' (w\<lparr>cin := clear_ignore io c\<rparr>)) = Some y"
      using body g by simp
    from IH[OF this] show ?thesis using g None by (subst getValidSize.simps) simp
  next
    case (Some u)
    show ?thesis
    proof (cases "u \<le> 0")
      case True
      then have "f io u
        (put ''Invalid input. Please enter a positive whole number: '' (w\<lparr>cin := clear_ignore io c\<rparr>)) = Some y"
        using body g Some by simp
      from IH[OF this] show ?thesis using g Some True by (subst getValidSize.simps) simp
    next
      case False
      then show ?thesis using body g Some by (subst getValidSize.simps) simp
    qed
  qed
qed

lemma getValidSize_old: "getValidSize io sz w = getValidSize io sz' w"
proof (cases "getValidSize io sz w")
  case None
  show ?thesis
  proof (cases "getValidSize io sz' w")
    case (Some y)
    then show ?thesis using getValidSize_old_le[of io sz' w y sz] None by simp
  qed (simp add: None)
next
  case (Some y)
  then show ?thesis using getValidSize_old_le[of io sz w y sz'] by simp
qed

lemma getValidNumber_old_le:
  "getValidNumber io x w = Some y \<Longrightarrow> getValidNumber io x' w = Some y"
proof (induct io x w y arbitrary: x' rule: getValidNumber.raw_induct[rotated 1, consumes 1])
  case (1 f io x w y)
  note IH = 1(1) and body = 1(2)
  obtain r c where g: "get_double io (cin w) = (r, c)" by (cases "get_double io (cin w)")
  show ?case
  proof (cases r)
    case None
    then have "f io (double_on_fail io (cin w) x)
        (put ''Invalid input. Please enter a valid number: '' (w\<lparr>cin := clear_ignore io c\<rparr>)) = Some y"
      using body g by simp
    from IH[OF this] show ?thesis using g None by (subst getValidNumber.simps) simp
  next
    case (Some u)
    then show ?thesis using body g by (subst getValidNumber.simps) simp
  qed
qed

lemma getValidNumber_old: "getValidNumber io x w = getValidNumber io x' w"
proof (cases "getValidNumber io x w")
  case None
  show ?thesis
  proof (cases "getValidNumber io x' w")
    case (Some y)
    then show ?thesis using getValidNumber_old_le[of io x' w y x] None by simp
  qed (simp add: None)
next
  case (Some y)
  then show ?thesis using getValidNumber_old_le[of io x w y x'] by simp
qed

lemma read_elements_old:
  "int i < sz \<Longrightarrow> read_elements io sz i arr x w = read_elements io sz i arr x' w"
  by (subst (1 2) read_elements.simps) (simp add: getValidNumber_old[of io x w x'])

lemma read_elements_length:
  "read_elements io sz i arr x w = Some (arr', x', w') \<Longrightarrow>
   length arr' = length arr + (nat sz - i)"
proof (induction io sz i arr x w rule: read_elements.induct)
  case (1 io sz i arr x w)
  show ?case
  proof (cases "int i < sz")
    case True
    then obtain x1 w1 where g: "getValidNumber io x w = Some (x1, w1)"
      and r: "read_elements io sz (i + 1) (arr @ [x1]) x1 w1 = Some (arr', x', w')"
      using "1.prems" by (subst (asm) read_elements.simps) (auto split: option.splits)
    have "length arr' = length (arr @ [x1]) + (nat sz - (i + 1))"
      using "1.IH"[OF True g _ r] by simp
    then show ?thesis using True by simp
  next
    case False
    then show ?thesis using "1.prems" by (subst (asm) read_elements.simps) simp
  qed
qed

lemma fill1_result:
  assumes "fill1 io l w = Some (l', w')" and "0 < size1 l" and "arr1 l = []"
  shows "size1 l' = min (size1 l) 10 \<and> int (length (arr1 l')) = size1 l' \<and>
         arr2 l' = arr2 l \<and> mergedArray l' = mergedArray l \<and> size2 l' = size2 l"
  using assms
  by (auto simp: fill1_def Let_def min_def split: option.splits if_splits dest!: read_elements_length)

lemma fill2_result:
  assumes "fill2 io l w = Some (l', w')" and "0 < size2 l" and "arr2 l = []"
  shows "size2 l' = min (size2 l) 10 \<and> int (length (arr2 l')) = size2 l' \<and>
         arr1 l' = arr1 l \<and> mergedArray l' = mergedArray l \<and> size1 l' = size1 l"
  using assms
  by (auto simp: fill2_def Let_def min_def split: option.splits if_splits dest!: read_elements_length)

lemma fill1_clamp: "10 < v \<Longrightarrow> fill1 io (l\<lparr>size1 := v\<rparr>) w = fill1 io (l\<lparr>size1 := 10\<rparr>) w"
  by (simp add: fill1_def)

lemma fill2_clamp: "10 < v \<Longrightarrow> fill2 io (l\<lparr>size2 := v\<rparr>) w = fill2 io (l\<lparr>size2 := 10\<rparr>) w"
  by (simp add: fill2_def)

lemma collect1_result:
  assumes "collect1 io l w = Some (l', w')" and "arr1 l = []"
  shows "1 \<le> size1 l' \<and> size1 l' \<le> 10 \<and> int (length (arr1 l')) = size1 l' \<and>
         arr2 l' = arr2 l \<and> mergedArray l' = mergedArray l \<and> size2 l' = size2 l"
proof -
  obtain v w1 where g: "getValidSize io (size1 l)
      (put ''How many would you want to place in the first array? (max 10): '' (line w)) = Some (v, w1)"
    and f: "fill1 io (l\<lparr>size1 := v\<rparr>) w1 = Some (l', w')"
    using assms(1) by (auto simp: collect1_def split: option.splits)
  have "0 < v" using getValidSize_positive[OF g] by simp
  then show ?thesis using fill1_result[OF f] assms(2) by auto
qed

lemma collect2_result:
  assumes "collect2 io l w = Some (l', w')" and "arr2 l = []"
  shows "1 \<le> size2 l' \<and> size2 l' \<le> 10 \<and> int (length (arr2 l')) = size2 l' \<and>
         arr1 l' = arr1 l \<and> mergedArray l' = mergedArray l \<and> size1 l' = size1 l"
proof -
  obtain v w1 where g: "getValidSize io (size2 l)
      (put ''How many would you want to place in the second array? (max 10): '' (line w)) = Some (v, w1)"
    and f: "fill2 io (l\<lparr>size2 := v\<rparr>) w1 = Some (l', w')"
    using assms(1) by (auto simp: collect2_def split: option.splits)
  have "0 < v" using getValidSize_positive[OF g] by simp
  then show ?thesis using fill2_result[OF f] assms(2) by auto
qed

lemma collect1_accepted:
  assumes g: "getValidSize io (size1 l)
      (put ''How many would you want to place in the first array? (max 10): '' (line w)) = Some (v, w1)"
    and c: "collect1 io l w = Some (l', w')" and e: "arr1 l = []"
  shows "size1 l' = min v 10 \<and> int (length (arr1 l')) = min v 10"
proof -
  have f: "fill1 io (l\<lparr>size1 := v\<rparr>) w1 = Some (l', w')"
    using c g by (simp add: collect1_def)
  have "0 < v" using getValidSize_positive[OF g] by simp
  then show ?thesis using fill1_result[OF f] e by simp
qed

lemma collect2_accepted:
  assumes g: "getValidSize io (size2 l)
      (put ''How many would you want to place in the second array? (max 10): '' (line w)) = Some (v, w1)"
    and c: "collect2 io l w = Some (l', w')" and e: "arr2 l = []"
  shows "size2 l' = min v 10 \<and> int (length (arr2 l')) = min v 10"
proof -
  have f: "fill2 io (l\<lparr>size2 := v\<rparr>) w1 = Some (l', w')"
    using c g by (simp add: collect2_def)
  have "0 < v" using getValidSize_positive[OF g] by simp
  then show ?thesis using fill2_result[OF f] e by simp
qed

lemma getValidSize_now:
  "get_int io (cin w) = (Some v, c) \<Longrightarrow> 0 < v \<Longrightarrow> getValidSize io sz w = Some (v, w\<lparr>cin := c\<rparr>)"
  by (subst getValidSize.simps) simp

lemma collect1_clamp:
  assumes "get_int io (cin w) = (Some v, r)" and "get_int io (cin u) = (Some 10, r)" and "10 < v"
    and "cout u = cout w"
  shows "collect1 io l w = collect1 io l u"
proof -
  let ?p = "put ''How many would you want to place in the first array? (max 10): ''"
  have cw: "cin (?p (line w)) = cin w" and cu: "cin (?p (line u)) = cin u"
    by (simp_all add: put_def line_def)
  have same: "(?p (line w))\<lparr>cin := r\<rparr> = (?p (line u))\<lparr>cin := r\<rparr>"
    using assms(4) by (simp add: put_def line_def)
  have "getValidSize io (size1 l) (?p (line w)) = Some (v, (?p (line w))\<lparr>cin := r\<rparr>)"
    using assms(1,3) cw by (intro getValidSize_now) auto
  moreover have "getValidSize io (size1 l) (?p (line u)) = Some (10, (?p (line u))\<lparr>cin := r\<rparr>)"
    using assms(2) cu by (intro getValidSize_now) auto
  ultimately show ?thesis using fill1_clamp[OF assms(3)] same by (simp add: collect1_def)
qed

lemma collect2_clamp:
  assumes "get_int io (cin w) = (Some v, r)" and "get_int io (cin u) = (Some 10, r)" and "10 < v"
    and "cout u = cout w"
  shows "collect2 io l w = collect2 io l u"
proof -
  let ?p = "put ''How many would you want to place in the second array? (max 10): ''"
  have cw: "cin (?p (line w)) = cin w" and cu: "cin (?p (line u)) = cin u"
    by (simp_all add: put_def line_def)
  have same: "(?p (line w))\<lparr>cin := r\<rparr> = (?p (line u))\<lparr>cin := r\<rparr>"
    using assms(4) by (simp add: put_def line_def)
  have "getValidSize io (size2 l) (?p (line w)) = Some (v, (?p (line w))\<lparr>cin := r\<rparr>)"
    using assms(1,3) cw by (intro getValidSize_now) auto
  moreover have "getValidSize io (size2 l) (?p (line u)) = Some (10, (?p (line u))\<lparr>cin := r\<rparr>)"
    using assms(2) cu by (intro getValidSize_now) auto
  ultimately show ?thesis using fill2_clamp[OF assms(3)] same by (simp add: collect2_def)
qed

lemma fill1_old:
  assumes "0 < size1 l"
  shows "fill1 io (l\<lparr>num := x\<rparr>) w = fill1 io l w"
proof (cases "10 < size1 l")
  case True
  have "read_elements io 10 0 (arr1 l) x w' = read_elements io 10 0 (arr1 l) (num l) w'" for w'
    by (rule read_elements_old) simp
  then show ?thesis using True by (simp add: fill1_def split: option.splits)
next
  case False
  have "read_elements io (size1 l) 0 (arr1 l) x w' = read_elements io (size1 l) 0 (arr1 l) (num l) w'"
    for w'
    by (rule read_elements_old) (use assms in simp)
  then show ?thesis using False by (simp add: fill1_def split: option.splits)
qed

lemma fill2_old:
  assumes "0 < size2 l"
  shows "fill2 io (l\<lparr>num := x\<rparr>) w = fill2 io l w"
proof (cases "10 < size2 l")
  case True
  have "read_elements io 10 0 (arr2 l) x w' = read_elements io 10 0 (arr2 l) (num l) w'" for w'
    by (rule read_elements_old) simp
  then show ?thesis using True by (simp add: fill2_def split: option.splits)
next
  case False
  have "read_elements io (size2 l) 0 (arr2 l) x w' = read_elements io (size2 l) 0 (arr2 l) (num l) w'"
    for w'
    by (rule read_elements_old) (use assms in simp)
  then show ?thesis using False by (simp add: fill2_def split: option.splits)
qed

lemma fill1_size2:
  "fill1 io (l\<lparr>size2 := b\<rparr>) w = map_option (\<lambda>(l', w'). (l'\<lparr>size2 := b\<rparr>, w')) (fill1 io l w)"
  by (simp add: fill1_def Let_def split: option.splits)

lemma collect1_old:
  "collect1 io (l\<lparr>size1 := a, size2 := b, num := x\<rparr>) w
     = map_option (\<lambda>(l', w'). (l'\<lparr>size2 := b\<rparr>, w')) (collect1 io l w)"
proof -
  let ?w = "put ''How many would you want to place in the first array? (max 10): '' (line w)"
  show ?thesis
  proof (cases "getValidSize io (size1 l) ?w")
    case None
    then have "getValidSize io a ?w = None" using getValidSize_old[of io a ?w "size1 l"] by simp
    then show ?thesis using None by (simp add: collect1_def)
  next
    case (Some y)
    obtain v w1 where y: "y = (v, w1)" by (cases y)
    have g: "getValidSize io a ?w = Some (v, w1)"
      using getValidSize_old[of io a ?w "size1 l"] Some y by simp
    have v: "0 < v" using getValidSize_positive[OF g] by simp
    have "fill1 io (l\<lparr>size1 := v, size2 := b, num := x\<rparr>) w1
        = fill1 io (l\<lparr>size1 := v, size2 := b\<rparr>) w1"
      using fill1_old[where l = "l\<lparr>size1 := v, size2 := b\<rparr>" and io = io and x = x and w = w1] v by simp
    also have "\<dots> = map_option (\<lambda>(l', w'). (l'\<lparr>size2 := b\<rparr>, w')) (fill1 io (l\<lparr>size1 := v\<rparr>) w1)"
      using fill1_size2[where l = "l\<lparr>size1 := v\<rparr>" and io = io and b = b and w = w1] by simp
    finally have f: "fill1 io (l\<lparr>size1 := v, size2 := b, num := x\<rparr>) w1
        = map_option (\<lambda>(l', w'). (l'\<lparr>size2 := b\<rparr>, w')) (fill1 io (l\<lparr>size1 := v\<rparr>) w1)" .
    have "collect1 io (l\<lparr>size1 := a, size2 := b, num := x\<rparr>) w
        = fill1 io (l\<lparr>size1 := v, size2 := b, num := x\<rparr>) w1"
      using g by (cases l) (simp add: collect1_def)
    moreover have "collect1 io l w = fill1 io (l\<lparr>size1 := v\<rparr>) w1"
      using Some y by (simp add: collect1_def)
    ultimately show ?thesis using f by simp
  qed
qed

lemma collect2_old:
  "collect2 io (l\<lparr>size2 := b\<rparr>) w = collect2 io l w"
  using getValidSize_old[of io b _ "size2 l"] by (simp add: collect2_def split: option.splits)

section \<open>Properties of the concatenation and of the printer\<close>

lemma push_all_drop:
  "sz = int (length arr) \<Longrightarrow> i \<le> length arr \<Longrightarrow> push_all arr sz i merged = merged @ drop i arr"
proof (induction arr sz i merged rule: push_all.induct)
  case (1 arr sz i merged)
  show ?case
  proof (cases "int i < sz")
    case True
    then have i: "i < length arr" using "1.prems" by simp
    have "push_all arr sz (i + 1) (merged @ [arr ! i]) = (merged @ [arr ! i]) @ drop (i + 1) arr"
      using "1.IH"[OF True] "1.prems" i by simp
    also have "\<dots> = merged @ drop i arr" using i by (simp add: Cons_nth_drop_Suc)
    finally show ?thesis using True by (subst push_all.simps) simp
  next
    case False
    then have "i = length arr" using "1.prems" by simp
    then show ?thesis using False by (subst push_all.simps) simp
  qed
qed

text \<open>When \<^verbatim>\<open>main\<close> reaches line 61, the two sizes are the lengths of the two arrays.\<close>

lemma concatenate_reached:
  assumes "collect1 io \<lparr>arr1 = [], arr2 = [], mergedArray = [], size1 = g1, size2 = g2, num = g3\<rparr> w
             = Some (l1, w1)"
    and "collect2 io l1 w1 = Some (l2, w2)"
  shows "size1 l2 = int (length (arr1 l2)) \<and> size2 l2 = int (length (arr2 l2)) \<and>
         mergedArray l2 = []"
proof -
  have a: "int (length (arr1 l1)) = size1 l1" "arr2 l1 = []" "mergedArray l1 = []"
    using collect1_result[OF assms(1)] by simp_all
  have "int (length (arr2 l2)) = size2 l2" "arr1 l2 = arr1 l1" "size1 l2 = size1 l1"
    "mergedArray l2 = mergedArray l1"
    using collect2_result[OF assms(2) a(2)] by simp_all
  then show ?thesis using a by simp
qed

lemma print_loop_cout:
  "n = length a \<Longrightarrow> i \<le> n \<Longrightarrow>
   print_loop io a n i w = put (concat (map (\<lambda>x. put_double io x @ '' '') (drop i a))) w"
proof (induction io a n i w rule: print_loop.induct)
  case (1 io a n i w)
  show ?case
  proof (cases "i < n")
    case True
    have "print_loop io a n (i + 1) (put '' '' (put (put_double io (a ! i)) w))
        = put (concat (map (\<lambda>x. put_double io x @ '' '') (drop (i + 1) a)))
            (put '' '' (put (put_double io (a ! i)) w))"
      using "1.IH"[OF True] "1.prems" True by simp
    also have "\<dots> = put (concat (map (\<lambda>x. put_double io x @ '' '') (drop i a))) w"
      using True "1.prems" by (simp add: put_def Cons_nth_drop_Suc[symmetric])
    finally show ?thesis using True by (subst print_loop.simps) simp
  next
    case False
    then show ?thesis using "1.prems" by (subst print_loop.simps) (simp add: put_def)
  qed
qed

lemma put_double_script [simp]: "put_double (script_io fmt) = fmt"
  by (simp add: script_io_def)

section \<open>Evaluation on the scripted input\<close>

lemma script_get_int:
  "get_int (script_io fmt) (p, []) = (None, (False, []))"
  "get_int (script_io fmt) (p, Entry None d # es) = (None, (False, Entry None d # es))"
  "get_int (script_io fmt) (p, Entry (Some v) d # es) = (Some v, (True, es))"
  by (simp_all add: script_io_def)

lemma script_get_double:
  "get_double (script_io fmt) (p, []) = (None, (False, []))"
  "get_double (script_io fmt) (p, Entry i None # es) = (None, (False, Entry i None # es))"
  "get_double (script_io fmt) (p, Entry i (Some x) # es) = (Some x, (True, es))"
  by (simp_all add: script_io_def)

lemma script_on_fail:
  "int_on_fail (script_io fmt) (p, []) old = old"
  "int_on_fail (script_io fmt) (p, e # es) old = 0"
  "double_on_fail (script_io fmt) (p, []) y = y"
  "double_on_fail (script_io fmt) (p, e # es) y = Double False 0 0"
  by (simp_all add: script_io_def)

lemma script_clear_ignore:
  "clear_ignore (script_io fmt) (True, s) = (False, s)"
  "clear_ignore (script_io fmt) (False, s) = (False, drop 1 s)"
  by (simp_all add: script_io_def)

lemmas script_ops = script_get_int script_get_double script_on_fail script_clear_ignore

lemma script_size_accept:
  "0 < v \<Longrightarrow> getValidSize (script_io fmt) sz \<lparr>cin = (p, Entry (Some v) d # es), cout = out\<rparr>
     = Some (v, \<lparr>cin = (True, es), cout = out\<rparr>)"
  by (subst getValidSize.simps) (simp add: script_ops)

lemma script_size_nonpos:
  "v \<le> 0 \<Longrightarrow> getValidSize (script_io fmt) sz \<lparr>cin = (p, Entry (Some v) d # es), cout = out\<rparr>
     = getValidSize (script_io fmt) v
         \<lparr>cin = (False, es), cout = out @ ''Invalid input. Please enter a positive whole number: ''\<rparr>"
  by (subst getValidSize.simps) (simp add: script_ops put_def)

lemma script_size_junk:
  "getValidSize (script_io fmt) sz \<lparr>cin = (p, Entry None d # es), cout = out\<rparr>
     = getValidSize (script_io fmt) 0
         \<lparr>cin = (False, es), cout = out @ ''Invalid input. Please enter a positive whole number: ''\<rparr>"
  by (subst getValidSize.simps) (simp add: script_ops put_def)

lemma script_number_accept:
  "getValidNumber (script_io fmt) x \<lparr>cin = (p, Entry i (Some v) # es), cout = out\<rparr>
     = Some (v, \<lparr>cin = (True, es), cout = out\<rparr>)"
  by (subst getValidNumber.simps) (simp add: script_ops)

lemma script_number_junk:
  "getValidNumber (script_io fmt) x \<lparr>cin = (p, Entry i None # es), cout = out\<rparr>
     = getValidNumber (script_io fmt) (Double False 0 0)
         \<lparr>cin = (False, es), cout = out @ ''Invalid input. Please enter a valid number: ''\<rparr>"
  by (subst getValidNumber.simps) (simp add: script_ops put_def)

lemmas script_eval =
  script_size_accept script_size_nonpos script_size_junk script_number_accept script_number_junk
  number_def junk_def

lemma script_eof_never_valid:
  "\<not> valid_size_next (script_io fmt)
       (snd ((reprompt_size (script_io fmt) ^^ n) (z, \<lparr>cin = (False, []), cout = out\<rparr>)))"
proof (induction n arbitrary: z out)
  case 0
  then show ?case by (simp add: valid_size_next_def script_ops)
next
  case (Suc n)
  have "reprompt_size (script_io fmt) (z, \<lparr>cin = (False, []), cout = out\<rparr>)
      = (z, \<lparr>cin = (False, []),
              cout = out @ ''Invalid input. Please enter a positive whole number: ''\<rparr>)"
    by (simp add: reprompt_size_def script_ops put_def)
  then show ?case using Suc.IH by (simp add: funpow_swap1)
qed

lemma example_session:
  "main (script_io fmt_small) 0 0 d1
     (False, [number 3 d3, junk, number 1 d1, number 5 d5, number 3 d3,
              number 0 d1, number 2 d2, number 2 d2, number 2 d2]) =
   Some (stars @ endl @ ''How many would you want to place in the first array? (max 10): ''
     @ ''Enter 3 elements: '' @ ''Invalid input. Please enter a valid number: ''
     @ stars @ endl @ ''How many would you want to place in the second array? (max 10): ''
     @ ''Invalid input. Please enter a positive whole number: '' @ ''Enter 2 elements: ''
     @ stars @ endl @ ''Merged and sorted array: '' @ ''5 3 2 2 1 '' @ endl, 0)"
  apply (simp add: main_def collect1_def collect2_def fill1_def fill2_def script_eval
      read_elements.simps put_def line_def put_int_def digits.simps concatenate_def push_all.simps)
  apply (simp add: sort_eval double_eval)
  apply (simp add: print_sorted_def print_elements_def print_loop.simps put_def line_def fmt_small_def double_eval)
  done

text \<open>Requests of 15 and of 12: ten elements are read each time.\<close>

lemma clamp_collect1:
  "collect1 (script_io fmt_small)
     \<lparr>arr1 = [], arr2 = [], mergedArray = [], size1 = 0, size2 = 0, num = d1\<rparr>
     \<lparr>cin = (False, [number 15 d1, number 1 d1, number 5 d5, number 3 d3, number 2 d2, number 7 d7,
                      number 1 d1, number 5 d5, number 3 d3, number 2 d2, number 7 d7, number 3 d3]),
      cout = []\<rparr>
   = Some (\<lparr>arr1 = [d1, d5, d3, d2, d7, d1, d5, d3, d2, d7], arr2 = [], mergedArray = [],
            size1 = 10, size2 = 0, num = d7\<rparr>,
           \<lparr>cin = (True, [number 3 d3]),
            cout = stars @ endl @ ''How many would you want to place in the first array? (max 10): ''
                 @ ''Enter 10 elements: ''\<rparr>)"
  by (simp add: collect1_def fill1_def script_eval read_elements.simps put_def line_def
      put_int_def digits.simps)

lemma clamp_collect2:
  "collect2 (script_io fmt_small)
     \<lparr>arr1 = [d7], arr2 = [], mergedArray = [], size1 = 1, size2 = 0, num = d7\<rparr>
     \<lparr>cin = (True, [number 12 d1, number 1 d1, number 5 d5, number 3 d3, number 2 d2, number 7 d7,
                     number 1 d1, number 5 d5, number 3 d3, number 2 d2, number 7 d7, number 3 d3]),
      cout = []\<rparr>
   = Some (\<lparr>arr1 = [d7], arr2 = [d1, d5, d3, d2, d7, d1, d5, d3, d2, d7], mergedArray = [],
            size1 = 1, size2 = 10, num = d7\<rparr>,
           \<lparr>cin = (True, [number 3 d3]),
            cout = stars @ endl @ ''How many would you want to place in the second array? (max 10): ''
                 @ ''Enter 10 elements: ''\<rparr>)"
  by (simp add: collect2_def fill2_def script_eval read_elements.simps put_def line_def
      put_int_def digits.simps)

lemma clamp_session:
  "main (script_io fmt_small) 0 0 d1
     (False, [number 15 d1, number 1 d1, number 5 d5, number 3 d3, number 2 d2, number 7 d7,
              number 1 d1, number 5 d5, number 3 d3, number 2 d2, number 7 d7,
              number 12 d1, number 2 d2, number 2 d2, number 2 d2, number 2 d2, number 2 d2,
              number 2 d2, number 2 d2, number 2 d2, number 2 d2, number 3 d3, number 5 d5]) =
   Some (stars @ endl @ ''How many would you want to place in the first array? (max 10): ''
     @ ''Enter 10 elements: ''
     @ stars @ endl @ ''How many would you want to place in the second array? (max 10): ''
     @ ''Enter 10 elements: ''
     @ stars @ endl @ ''Merged and sorted array: ''
     @ ''7 7 5 5 3 3 3 2 2 2 2 2 2 2 2 2 2 2 1 1 '' @ endl, 0)"
  apply (simp add: main_def collect1_def collect2_def fill1_def fill2_def script_eval
      read_elements.simps put_def line_def put_int_def digits.simps concatenate_def push_all.simps)
  apply (simp add: sort_eval double_eval)
  apply (simp add: print_sorted_def print_elements_def print_loop.simps put_def line_def fmt_small_def double_eval)
  done

text \<open>
  With a NaN among the elements the result need not be ordered: the comparison is false in both
  directions, and the NaN stays where it is.
\<close>

lemma sort_with_nan:
  "selection_sort [d1, dnan, d2] = [d2, dnan, d1] \<and> \<not> dge d2 dnan \<and> \<not> dge dnan d1"
  by (simp add: sort_eval double_eval)

section \<open>The claims about input, concatenation and output\<close>

text \<open>
  C4. When the sizes are the lengths of the two arrays and \<open>mergedArray\<close> is empty, as they
  are at line 61, the concatenation leaves in \<open>mergedArray\<close> the elements of \<open>arr1\<close> in order
  followed by those of \<open>arr2\<close> in order; its length is the sum of the two lengths, and
  \<open>arr1\<close> and \<open>arr2\<close> are unchanged.
\<close>

theorem concatenation:
  assumes "size1 l = int (length (arr1 l))" and "size2 l = int (length (arr2 l))"
    and "mergedArray l = []"
  shows "mergedArray (concatenate l) = arr1 l @ arr2 l \<and>
         length (mergedArray (concatenate l)) = length (arr1 l) + length (arr2 l) \<and>
         arr1 (concatenate l) = arr1 l \<and> arr2 (concatenate l) = arr2 l"
  using assms by (simp add: concatenate_def Let_def push_all_drop)

theorem concatenation_witness:
  "size1 \<lparr>arr1 = [d7], arr2 = [d3], mergedArray = [], size1 = 1, size2 = 1, num = d3\<rparr>
     = int (length [d7]) \<and>
   size2 \<lparr>arr1 = [d7], arr2 = [d3], mergedArray = [], size1 = 1, size2 = 1, num = d3\<rparr>
     = int (length [d3]) \<and>
   mergedArray (concatenate \<lparr>arr1 = [d7], arr2 = [d3], mergedArray = [],
                            size1 = 1, size2 = 1, num = d3\<rparr>) = [d7, d3] \<and>
   arr1 (concatenate \<lparr>arr1 = [d7], arr2 = [d3], mergedArray = [],
                     size1 = 1, size2 = 1, num = d3\<rparr>) = [d7]"
  using concatenation[of "\<lparr>arr1 = [d7], arr2 = [d3], mergedArray = [],
                           size1 = 1, size2 = 1, num = d3\<rparr>"]
  by simp

text \<open>
  C5. The accepted size is clamped to 10: when the size collector has returned \<open>v\<close>, the
  collecting phase, if it ends, leaves \<open>min v 10\<close> in the size variable and an array of
  exactly that many elements, so the array has between 1 and 10 elements. A requested size above
  10 behaves as a request of exactly 10: when one input delivers \<open>v > 10\<close> and another
  delivers 10 and both continue with the same stream, each collecting phase, and the whole
  program when the request is the first one, give the same result.
\<close>

theorem size_clamped:
  "(10 < v \<and> get_int io (cin w) = (Some v, r) \<and> get_int io (cin u) = (Some 10, r) \<and> cout u = cout w
      \<longrightarrow> collect1 io l w = collect1 io l u \<and> collect2 io l w = collect2 io l u) \<and>
   (10 < v \<and> get_int io s = (Some v, r) \<and> get_int io t = (Some 10, r)
      \<longrightarrow> main io g1 g2 g3 s = main io g1 g2 g3 t) \<and>
   (\<forall>a w1 l' w'.
      getValidSize io (size1 l)
        (put ''How many would you want to place in the first array? (max 10): '' (line w))
          = Some (a, w1) \<and>
      collect1 io l w = Some (l', w') \<and> arr1 l = []
      \<longrightarrow> size1 l' = min a 10 \<and> int (length (arr1 l')) = min a 10) \<and>
   (\<forall>a w1 l' w'.
      getValidSize io (size2 l)
        (put ''How many would you want to place in the second array? (max 10): '' (line w))
          = Some (a, w1) \<and>
      collect2 io l w = Some (l', w') \<and> arr2 l = []
      \<longrightarrow> size2 l' = min a 10 \<and> int (length (arr2 l')) = min a 10) \<and>
   (\<forall>l' w'. fill1 io l w = Some (l', w') \<and> 0 < size1 l \<and> arr1 l = []
      \<longrightarrow> size1 l' = min (size1 l) 10 \<and> int (length (arr1 l')) = min (size1 l) 10) \<and>
   (\<forall>l' w'. fill2 io l w = Some (l', w') \<and> 0 < size2 l \<and> arr2 l = []
      \<longrightarrow> size2 l' = min (size2 l) 10 \<and> int (length (arr2 l')) = min (size2 l) 10) \<and>
   (\<forall>l' w'. collect1 io l w = Some (l', w') \<and> arr1 l = []
      \<longrightarrow> 1 \<le> length (arr1 l') \<and> length (arr1 l') \<le> 10 \<and> size1 l' = int (length (arr1 l'))) \<and>
   (\<forall>l' w'. collect2 io l w = Some (l', w') \<and> arr2 l = []
      \<longrightarrow> 1 \<le> length (arr2 l') \<and> length (arr2 l') \<le> 10 \<and> size2 l' = int (length (arr2 l')))"
proof (intro conjI allI impI)
  assume h: "10 < v \<and> get_int io (cin w) = (Some v, r) \<and> get_int io (cin u) = (Some 10, r) \<and> cout u = cout w"
  then show "collect1 io l w = collect1 io l u" using collect1_clamp[of io w v r u l] by blast
  from h show "collect2 io l w = collect2 io l u" using collect2_clamp[of io w v r u l] by blast
next
  assume h: "10 < v \<and> get_int io s = (Some v, r) \<and> get_int io t = (Some 10, r)"
  let ?l = "\<lparr>arr1 = [], arr2 = [], mergedArray = [], size1 = g1, size2 = g2, num = g3\<rparr>"
  have "collect1 io ?l \<lparr>cin = s, cout = []\<rparr> = collect1 io ?l \<lparr>cin = t, cout = []\<rparr>"
    using h by (intro collect1_clamp[of io _ v r]) auto
  then show "main io g1 g2 g3 s = main io g1 g2 g3 t" by (simp add: main_def)
next
  fix a w1 l' w'
  assume h: "getValidSize io (size1 l)
        (put ''How many would you want to place in the first array? (max 10): '' (line w))
          = Some (a, w1) \<and>
      collect1 io l w = Some (l', w') \<and> arr1 l = []"
  then show "size1 l' = min a 10" "int (length (arr1 l')) = min a 10"
    using collect1_accepted[of io l w a w1 l' w'] by blast+
next
  fix a w1 l' w'
  assume h: "getValidSize io (size2 l)
        (put ''How many would you want to place in the second array? (max 10): '' (line w))
          = Some (a, w1) \<and>
      collect2 io l w = Some (l', w') \<and> arr2 l = []"
  then show "size2 l' = min a 10" "int (length (arr2 l')) = min a 10"
    using collect2_accepted[of io l w a w1 l' w'] by blast+
next
  fix l' w' assume h: "fill1 io l w = Some (l', w') \<and> 0 < size1 l \<and> arr1 l = []"
  then have "size1 l' = min (size1 l) 10 \<and> int (length (arr1 l')) = size1 l'"
    using fill1_result[of io l w l' w'] by blast
  then show "size1 l' = min (size1 l) 10" "int (length (arr1 l')) = min (size1 l) 10" by simp_all
next
  fix l' w' assume h: "fill2 io l w = Some (l', w') \<and> 0 < size2 l \<and> arr2 l = []"
  then have "size2 l' = min (size2 l) 10 \<and> int (length (arr2 l')) = size2 l'"
    using fill2_result[of io l w l' w'] by blast
  then show "size2 l' = min (size2 l) 10" "int (length (arr2 l')) = min (size2 l) 10" by simp_all
next
  fix l' w' assume h: "collect1 io l w = Some (l', w') \<and> arr1 l = []"
  then have r: "1 \<le> size1 l'" "size1 l' \<le> 10" "int (length (arr1 l')) = size1 l'"
    using collect1_result[of io l w l' w'] by auto
  then show "1 \<le> length (arr1 l')" "length (arr1 l') \<le> 10" "size1 l' = int (length (arr1 l'))"
    by linarith+
next
  fix l' w' assume h: "collect2 io l w = Some (l', w') \<and> arr2 l = []"
  then have r: "1 \<le> size2 l'" "size2 l' \<le> 10" "int (length (arr2 l')) = size2 l'"
    using collect2_result[of io l w l' w'] by auto
  then show "1 \<le> length (arr2 l')" "length (arr2 l') \<le> 10" "size2 l' = int (length (arr2 l'))"
    by linarith+
qed

theorem size_clamped_witness:
  "(10::int) < 15 \<and>
   main (script_io fmt_small) 0 0 d1
     (False, [number 15 d1, number 1 d1, number 5 d5, number 3 d3, number 2 d2, number 7 d7,
              number 1 d1, number 5 d5, number 3 d3, number 2 d2, number 7 d7,
              number 12 d1, number 2 d2, number 2 d2, number 2 d2, number 2 d2, number 2 d2,
              number 2 d2, number 2 d2, number 2 d2, number 2 d2, number 3 d3, number 5 d5]) =
   Some (stars @ endl @ ''How many would you want to place in the first array? (max 10): ''
     @ ''Enter 10 elements: ''
     @ stars @ endl @ ''How many would you want to place in the second array? (max 10): ''
     @ ''Enter 10 elements: ''
     @ stars @ endl @ ''Merged and sorted array: ''
     @ ''7 7 5 5 3 3 3 2 2 2 2 2 2 2 2 2 2 2 1 1 '' @ endl, 0) \<and>
   main (script_io fmt_small) 0 0 d1
     (False, [number 10 d1, number 1 d1, number 5 d5, number 3 d3, number 2 d2, number 7 d7,
              number 1 d1, number 5 d5, number 3 d3, number 2 d2, number 7 d7,
              number 12 d1, number 2 d2, number 2 d2, number 2 d2, number 2 d2, number 2 d2,
              number 2 d2, number 2 d2, number 2 d2, number 2 d2, number 3 d3, number 5 d5]) =
   Some (stars @ endl @ ''How many would you want to place in the first array? (max 10): ''
     @ ''Enter 10 elements: ''
     @ stars @ endl @ ''How many would you want to place in the second array? (max 10): ''
     @ ''Enter 10 elements: ''
     @ stars @ endl @ ''Merged and sorted array: ''
     @ ''7 7 5 5 3 3 3 2 2 2 2 2 2 2 2 2 2 2 1 1 '' @ endl, 0) \<and>
   collect1 (script_io fmt_small)
     \<lparr>arr1 = [], arr2 = [], mergedArray = [], size1 = 0, size2 = 0, num = d1\<rparr>
     \<lparr>cin = (False, [number 15 d1, number 1 d1, number 5 d5, number 3 d3, number 2 d2, number 7 d7,
                      number 1 d1, number 5 d5, number 3 d3, number 2 d2, number 7 d7, number 3 d3]),
      cout = []\<rparr>
   = Some (\<lparr>arr1 = [d1, d5, d3, d2, d7, d1, d5, d3, d2, d7], arr2 = [], mergedArray = [],
            size1 = 10, size2 = 0, num = d7\<rparr>,
           \<lparr>cin = (True, [number 3 d3]),
            cout = stars @ endl @ ''How many would you want to place in the first array? (max 10): ''
                 @ ''Enter 10 elements: ''\<rparr>) \<and>
   (10::int) = min 15 10 \<and>
   int (length [d1, d5, d3, d2, d7, d1, d5, d3, d2, d7]) = min 15 10 \<and>
   collect2 (script_io fmt_small)
     \<lparr>arr1 = [d7], arr2 = [], mergedArray = [], size1 = 1, size2 = 0, num = d7\<rparr>
     \<lparr>cin = (True, [number 12 d1, number 1 d1, number 5 d5, number 3 d3, number 2 d2, number 7 d7,
                     number 1 d1, number 5 d5, number 3 d3, number 2 d2, number 7 d7, number 3 d3]),
      cout = []\<rparr>
   = Some (\<lparr>arr1 = [d7], arr2 = [d1, d5, d3, d2, d7, d1, d5, d3, d2, d7], mergedArray = [],
            size1 = 1, size2 = 10, num = d7\<rparr>,
           \<lparr>cin = (True, [number 3 d3]),
            cout = stars @ endl @ ''How many would you want to place in the second array? (max 10): ''
                 @ ''Enter 10 elements: ''\<rparr>) \<and>
   (10::int) = min 12 10"
proof -
  let ?io = "script_io fmt_small"
  let ?rest = "[number 1 d1, number 5 d5, number 3 d3, number 2 d2, number 7 d7,
              number 1 d1, number 5 d5, number 3 d3, number 2 d2, number 7 d7,
              number 12 d1, number 2 d2, number 2 d2, number 2 d2, number 2 d2, number 2 d2,
              number 2 d2, number 2 d2, number 2 d2, number 2 d2, number 3 d3, number 5 d5]"
  let ?l0 = "\<lparr>arr1 = [], arr2 = [], mergedArray = [], size1 = 0, size2 = 0, num = d1\<rparr>"
  let ?w1 = "\<lparr>cin = (False, [number 15 d1, number 1 d1, number 5 d5, number 3 d3, number 2 d2,
                      number 7 d7, number 1 d1, number 5 d5, number 3 d3, number 2 d2, number 7 d7,
                      number 3 d3]), cout = []\<rparr>"
  let ?l1 = "\<lparr>arr1 = [d7], arr2 = [], mergedArray = [], size1 = 1, size2 = 0, num = d7\<rparr>"
  let ?w2 = "\<lparr>cin = (True, [number 12 d1, number 1 d1, number 5 d5, number 3 d3, number 2 d2,
                      number 7 d7, number 1 d1, number 5 d5, number 3 d3, number 2 d2, number 7 d7,
                      number 3 d3]), cout = []\<rparr>"
  have a: "get_int ?io (False, number 15 d1 # ?rest) = (Some 15, (True, ?rest))"
    and b: "get_int ?io (False, number 10 d1 # ?rest) = (Some 10, (True, ?rest))"
    by (simp_all add: script_ops number_def)
  have same: "main ?io 0 0 d1 (False, number 15 d1 # ?rest) = main ?io 0 0 d1 (False, number 10 d1 # ?rest)"
    using a b size_clamped[where v = 15 and io = ?io and s = "(False, number 15 d1 # ?rest)"
        and t = "(False, number 10 d1 # ?rest)" and r = "(True, ?rest)"
        and ?g1.0 = 0 and ?g2.0 = 0 and ?g3.0 = d1]
    by simp
  have g1: "getValidSize ?io (size1 ?l0)
      (put ''How many would you want to place in the first array? (max 10): '' (line ?w1))
        = Some (15, \<lparr>cin = (True, [number 1 d1, number 5 d5, number 3 d3, number 2 d2,
                      number 7 d7, number 1 d1, number 5 d5, number 3 d3, number 2 d2, number 7 d7,
                      number 3 d3]),
                    cout = stars @ endl
                      @ ''How many would you want to place in the first array? (max 10): ''\<rparr>)"
    by (simp add: script_eval put_def line_def)
  have g2: "getValidSize ?io (size2 ?l1)
      (put ''How many would you want to place in the second array? (max 10): '' (line ?w2))
        = Some (12, \<lparr>cin = (True, [number 1 d1, number 5 d5, number 3 d3, number 2 d2,
                      number 7 d7, number 1 d1, number 5 d5, number 3 d3, number 2 d2, number 7 d7,
                      number 3 d3]),
                    cout = stars @ endl
                      @ ''How many would you want to place in the second array? (max 10): ''\<rparr>)"
    by (simp add: script_eval put_def line_def)
  have s1: "(10::int) = min 15 10 \<and> int (length [d1, d5, d3, d2, d7, d1, d5, d3, d2, d7]) = min 15 10"
    using g1 clamp_collect1 size_clamped[where io = ?io and l = ?l0 and w = ?w1] by fastforce
  have s2: "(10::int) = min 12 10"
    using g2 clamp_collect2 size_clamped[where io = ?io and l = ?l1 and w = ?w2] by fastforce
  show ?thesis
    using same clamp_session clamp_collect1 clamp_collect2 s1 s2 by simp
qed

text \<open>
  C6. The size collector returns only positive values that a read has delivered. When the next
  read fails or delivers a value that is not positive, the collector discards the input, writes
  the prompt and tries again. When the first valid read comes after \<open>k\<close> such attempts it
  returns that value; when no valid read ever comes it prompts forever and never returns. There
  is no other outcome.
\<close>

theorem size_collector:
  "(\<forall>v w'. getValidSize io sz w = Some (v, w') \<longrightarrow>
      0 < v \<and> (\<exists>c. get_int io c = (Some v, cin w'))) \<and>
   (\<not> valid_size_next io w \<longrightarrow>
      getValidSize io sz w = (case reprompt_size io (sz, w) of (sz', w') \<Rightarrow> getValidSize io sz' w')) \<and>
   (\<forall>k. (\<forall>j<k. \<not> valid_size_next io (snd ((reprompt_size io ^^ j) (sz, w)))) \<and>
        valid_size_next io (snd ((reprompt_size io ^^ k) (sz, w))) \<longrightarrow>
        getValidSize io sz w = accept_size io (snd ((reprompt_size io ^^ k) (sz, w))) \<and>
        getValidSize io sz w \<noteq> None) \<and>
   ((\<forall>k. \<not> valid_size_next io (snd ((reprompt_size io ^^ k) (sz, w)))) \<longrightarrow>
      getValidSize io sz w = None)"
proof (intro conjI allI impI)
  fix v w' assume "getValidSize io sz w = Some (v, w')"
  then show "0 < v" "\<exists>c. get_int io c = (Some v, cin w')"
    using getValidSize_positive by blast+
next
  assume "\<not> valid_size_next io w"
  then show "getValidSize io sz w = (case reprompt_size io (sz, w) of (sz', w') \<Rightarrow> getValidSize io sz' w')"
    by (rule getValidSize_reprompt)
next
  fix k
  assume h: "(\<forall>j<k. \<not> valid_size_next io (snd ((reprompt_size io ^^ j) (sz, w)))) \<and>
        valid_size_next io (snd ((reprompt_size io ^^ k) (sz, w)))"
  then show e: "getValidSize io sz w = accept_size io (snd ((reprompt_size io ^^ k) (sz, w)))"
    using getValidSize_after_retries by blast
  have "accept_size io (snd ((reprompt_size io ^^ k) (sz, w))) \<noteq> None"
    using h by (auto simp: valid_size_next_def accept_size_def split: prod.splits option.splits)
  then show "getValidSize io sz w \<noteq> None" using e by simp
next
  assume "\<forall>k. \<not> valid_size_next io (snd ((reprompt_size io ^^ k) (sz, w)))"
  then show "getValidSize io sz w = None"
    using getValidSize_some_valid[of io sz w] by (cases "getValidSize io sz w") auto
qed

theorem size_collector_witness:
  "\<not> valid_size_next (script_io fmt_small) \<lparr>cin = (False, [junk, number 0 d1, number 3 d3]), cout = []\<rparr> \<and>
   getValidSize (script_io fmt_small) 7 \<lparr>cin = (False, [junk, number 0 d1, number 3 d3]), cout = []\<rparr>
     = Some (3, \<lparr>cin = (True, []),
                 cout = ''Invalid input. Please enter a positive whole number: ''
                      @ ''Invalid input. Please enter a positive whole number: ''\<rparr>) \<and>
   getValidSize (script_io fmt_small) 7 \<lparr>cin = (False, [junk, number 0 d1]), cout = []\<rparr> = None"
proof -
  let ?io = "script_io fmt_small"
  let ?w = "\<lparr>cin = (False, [junk, number 0 d1, number 3 d3]), cout = []\<rparr>"
  let ?u = "\<lparr>cin = (False, [junk, number 0 d1]), cout = []\<rparr>"
  have r1: "reprompt_size ?io (7, ?w)
      = (0, \<lparr>cin = (False, [number 0 d1, number 3 d3]),
              cout = ''Invalid input. Please enter a positive whole number: ''\<rparr>)"
    by (simp add: reprompt_size_def script_ops junk_def number_def put_def)
  have r2: "reprompt_size ?io (0, \<lparr>cin = (False, [number 0 d1, number 3 d3]),
              cout = ''Invalid input. Please enter a positive whole number: ''\<rparr>)
      = (0, \<lparr>cin = (False, [number 3 d3]),
              cout = ''Invalid input. Please enter a positive whole number: ''
                   @ ''Invalid input. Please enter a positive whole number: ''\<rparr>)"
    by (simp add: reprompt_size_def script_ops junk_def number_def put_def)
  have v0: "\<not> valid_size_next ?io ?w"
    by (simp add: valid_size_next_def script_ops junk_def)
  have v1: "\<not> valid_size_next ?io (snd (reprompt_size ?io (7, ?w)))"
    unfolding r1 by (simp add: valid_size_next_def script_ops number_def)
  have two: "(reprompt_size ?io ^^ 2) (7, ?w)
      = (0, \<lparr>cin = (False, [number 3 d3]),
              cout = ''Invalid input. Please enter a positive whole number: ''
                   @ ''Invalid input. Please enter a positive whole number: ''\<rparr>)"
    by (simp add: numeral_2_eq_2 r1 r2)
  have v2: "valid_size_next ?io (snd ((reprompt_size ?io ^^ 2) (7, ?w)))"
    unfolding two by (simp add: valid_size_next_def script_ops number_def)
  have before: "\<forall>j<2. \<not> valid_size_next ?io (snd ((reprompt_size ?io ^^ j) (7, ?w)))"
    using v0 v1 by (simp add: numeral_2_eq_2 less_Suc_eq)
  have "getValidSize ?io 7 ?w = accept_size ?io (snd ((reprompt_size ?io ^^ 2) (7, ?w)))"
    using size_collector[of ?io 7 ?w] before v2 by blast
  then have a: "getValidSize ?io 7 ?w = Some (3, \<lparr>cin = (True, []),
                 cout = ''Invalid input. Please enter a positive whole number: ''
                      @ ''Invalid input. Please enter a positive whole number: ''\<rparr>)"
    unfolding two by (simp add: accept_size_def script_ops number_def)
  have never: "\<not> valid_size_next ?io (snd ((reprompt_size ?io ^^ k) (7, ?u)))" for k
  proof -
    note e = script_eof_never_valid[of fmt_small]
    have s1: "reprompt_size ?io (7, ?u)
        = (0, \<lparr>cin = (False, [number 0 d1]), cout = ''Invalid input. Please enter a positive whole number: ''\<rparr>)"
      by (simp add: reprompt_size_def script_ops junk_def number_def put_def)
    have s2: "reprompt_size ?io (0, \<lparr>cin = (False, [number 0 d1]), cout = ''Invalid input. Please enter a positive whole number: ''\<rparr>)
        = (0, \<lparr>cin = (False, []), cout = ''Invalid input. Please enter a positive whole number: ''
                   @ ''Invalid input. Please enter a positive whole number: ''\<rparr>)"
      by (simp add: reprompt_size_def script_ops junk_def number_def put_def)
    show ?thesis
    proof (cases k)
      case 0
      then show ?thesis by (simp add: valid_size_next_def script_ops junk_def)
    next
      case (Suc k1)
      show ?thesis
      proof (cases k1)
        case 0
        then show ?thesis using Suc s1 by (simp add: valid_size_next_def script_ops number_def)
      next
        case (Suc k2)
        then show ?thesis using \<open>k = Suc k1\<close> s1 s2 e by (simp add: funpow_swap1)
      qed
    qed
  qed
  have "getValidSize ?io 7 ?u = None"
    using size_collector[of ?io 7 ?u] never by blast
  then show ?thesis using v0 a by blast
qed

text \<open>
  C7, as amended. The printer writes every element followed by a single space, the last one
  too, and then a newline; it does not read the input. In the program this text follows the
  banner line and the label.
\<close>

theorem printer_output:
  "cout (print_elements io a w) = cout w @ concat (map (\<lambda>x. put_double io x @ '' '') a) @ endl \<and>
   cin (print_elements io a w) = cin w \<and>
   cout (print_sorted io a w) =
     cout w @ stars @ endl @ ''Merged and sorted array: ''
       @ concat (map (\<lambda>x. put_double io x @ '' '') a) @ endl"
proof (intro conjI)
  have loop: "print_loop io a (length a) 0 u = put (concat (map (\<lambda>x. put_double io x @ '' '') a)) u"
    for u
    using print_loop_cout[of "length a" a 0 io u] by simp
  show "cout (print_elements io a w) = cout w @ concat (map (\<lambda>x. put_double io x @ '' '') a) @ endl"
    by (simp add: print_elements_def loop put_def)
  show "cin (print_elements io a w) = cin w"
    by (simp add: print_elements_def loop put_def)
  show "cout (print_sorted io a w) =
     cout w @ stars @ endl @ ''Merged and sorted array: ''
       @ concat (map (\<lambda>x. put_double io x @ '' '') a) @ endl"
    by (simp add: print_sorted_def print_elements_def loop put_def line_def)
qed

theorem printer_output_witness:
  "cout (print_elements (script_io fmt_small) [d7, d3] \<lparr>cin = (False, []), cout = []\<rparr>)
     = ''7 3 '' @ endl"
  using printer_output[of "script_io fmt_small" "[d7, d3]" "\<lparr>cin = (False, []), cout = []\<rparr>"]
  by (simp add: fmt_small_def double_eval)

text \<open>
  C7 as stated fails: for the elements 7 and 3 the program writes a space between the 3 and the
  newline, which the elements separated by single spaces and followed by a newline do not have.
\<close>

theorem printer_counterexample:
  "cout (print_elements (script_io fmt_small) [d7, d3] \<lparr>cin = (False, []), cout = []\<rparr>)
     \<noteq> spec_printed fmt_small [d7, d3]"
  by (simp add: print_elements_def print_loop.simps put_def spec_printed_def fmt_small_def endl_def double_eval)

text \<open>
  C8. For \<open>A = [1, 5, 3]\<close> and \<open>B = [2, 2]\<close> the merged sequence is \<open>[1, 5, 3, 2, 2]\<close>
  and the sorted values are 5, 3, 2, 2, 1 in that order.
\<close>

theorem example_run:
  "mergedArray (concatenate \<lparr>arr1 = [d1, d5, d3], arr2 = [d2, d2], mergedArray = [],
                            size1 = 3, size2 = 2, num = d2\<rparr>) = [d1, d5, d3, d2, d2] \<and>
   selection_sort [d1, d5, d3, d2, d2] = [d5, d3, d2, d2, d1]"
proof
  show "mergedArray (concatenate \<lparr>arr1 = [d1, d5, d3], arr2 = [d2, d2], mergedArray = [],
                            size1 = 3, size2 = 2, num = d2\<rparr>) = [d1, d5, d3, d2, d2]"
    by (simp add: concatenate_def push_all.simps)
  show "selection_sort [d1, d5, d3, d2, d2] = [d5, d3, d2, d2, d1]"
    by (simp add: sort_eval double_eval)
qed

text \<open>
  C10. The result of the program, the text written and the exit code, is determined by the
  input stream alone: it is the same for all initial contents of the variables that the source
  leaves uninitialised, and the exit code of every run that ends is 0.
\<close>

theorem main_deterministic:
  "main io g1 g2 g3 stdin = main io h1 h2 h3 stdin \<and>
   (\<forall>out code. main io g1 g2 g3 stdin = Some (out, code) \<longrightarrow> code = 0)"
proof
  let ?l = "\<lparr>arr1 = [], arr2 = [], mergedArray = [], size1 = g1, size2 = g2, num = g3\<rparr>"
  let ?w = "\<lparr>cin = stdin, cout = []\<rparr>"
  have h: "\<lparr>arr1 = [], arr2 = [], mergedArray = [], size1 = h1, size2 = h2, num = h3\<rparr>
      = ?l\<lparr>size1 := h1, size2 := h2, num := h3\<rparr>" by simp
  have c1: "collect1 io (?l\<lparr>size1 := h1, size2 := h2, num := h3\<rparr>) ?w
      = map_option (\<lambda>(l', w'). (l'\<lparr>size2 := h2\<rparr>, w')) (collect1 io ?l ?w)"
    by (rule collect1_old)
  show "main io g1 g2 g3 stdin = main io h1 h2 h3 stdin"
  proof (cases "collect1 io ?l ?w")
    case None
    then show ?thesis using c1 unfolding main_def h by simp
  next
    case (Some y)
    obtain l1 w1 where y: "y = (l1, w1)" by (cases y)
    have "collect2 io (l1\<lparr>size2 := h2\<rparr>) w1 = collect2 io l1 w1" by (rule collect2_old)
    then show ?thesis using c1 Some y unfolding main_def h by simp
  qed
  show "\<forall>out code. main io g1 g2 g3 stdin = Some (out, code) \<longrightarrow> code = 0"
    by (auto simp: main_def Let_def split: option.splits)
qed

theorem main_deterministic_witness:
  "main (script_io fmt_small) 0 0 d1
     (False, [number 3 d3, junk, number 1 d1, number 5 d5, number 3 d3,
              number 0 d1, number 2 d2, number 2 d2, number 2 d2]) =
   Some (stars @ endl @ ''How many would you want to place in the first array? (max 10): ''
     @ ''Enter 3 elements: '' @ ''Invalid input. Please enter a valid number: ''
     @ stars @ endl @ ''How many would you want to place in the second array? (max 10): ''
     @ ''Invalid input. Please enter a positive whole number: '' @ ''Enter 2 elements: ''
     @ stars @ endl @ ''Merged and sorted array: '' @ ''5 3 2 2 1 '' @ endl, 0) \<and>
   main (script_io fmt_small) 7 (- 3) dnan
     (False, [number 3 d3, junk, number 1 d1, number 5 d5, number 3 d3,
              number 0 d1, number 2 d2, number 2 d2, number 2 d2]) =
   main (script_io fmt_small) 0 0 d1
     (False, [number 3 d3, junk, number 1 d1, number 5 d5, number 3 d3,
              number 0 d1, number 2 d2, number 2 d2, number 2 d2])"
  using example_session main_deterministic[of "script_io fmt_small" 7 "- 3" dnan _ 0 0 d1]
  by simp

end
